theory Spec2Isabelle
  imports Complex_Main
begin

section \<open>Data model\<close>

subsection \<open>Appraisal bands (appraisal.py, lines 4-91)\<close>

text \<open>
  \<^verbatim>\<open>OverallAppraisal\<close> and \<^verbatim>\<open>TopIV\<close> are Python enums in which several names share one
  value. Python makes every later name of a value an alias of the first one, so each enum
  has exactly four members: the first name of each value. The aliases (\<^verbatim>\<open>amazes\<close>, \<^verbatim>\<open>best\<close>
  for \<^verbatim>\<open>wonder\<close>, and so on) denote the same member and need no constructor. The member
  \<^verbatim>\<open>TopIV.norm\<close> is written \<open>norm_iv\<close>, since \<open>norm\<close> is a constant of the library.
\<close>

datatype OverallAppraisal = wonder | attention | average | likely

datatype TopIV = exceed | impressed | trending | norm_iv

text \<open>
  The four dictionaries are total on the four members. The percentages are Python floats;
  they are only ever compared, and are modelled by the real numbers they denote.
\<close>

fun OVERALL_APPRAISAL_MINIMUM_PERCENTS :: "OverallAppraisal \<Rightarrow> real" where
  "OVERALL_APPRAISAL_MINIMUM_PERCENTS wonder = 822 / 10"
| "OVERALL_APPRAISAL_MINIMUM_PERCENTS attention = 667 / 10"
| "OVERALL_APPRAISAL_MINIMUM_PERCENTS average = 511 / 10"
| "OVERALL_APPRAISAL_MINIMUM_PERCENTS likely = 0"

fun OVERALL_APPRAISAL_MAXIMUM_PERCENTS :: "OverallAppraisal \<Rightarrow> real" where
  "OVERALL_APPRAISAL_MAXIMUM_PERCENTS wonder = 100"
| "OVERALL_APPRAISAL_MAXIMUM_PERCENTS attention = 80"
| "OVERALL_APPRAISAL_MAXIMUM_PERCENTS average = 644 / 10"
| "OVERALL_APPRAISAL_MAXIMUM_PERCENTS likely = 489 / 10"

fun IV_APPRAISAL_MINIMUM_VALUE :: "TopIV \<Rightarrow> nat" where
  "IV_APPRAISAL_MINIMUM_VALUE exceed = 15"
| "IV_APPRAISAL_MINIMUM_VALUE impressed = 13"
| "IV_APPRAISAL_MINIMUM_VALUE trending = 8"
| "IV_APPRAISAL_MINIMUM_VALUE norm_iv = 0"

fun IV_APPRAISAL_MAXIMUM_VALUE :: "TopIV \<Rightarrow> nat" where
  "IV_APPRAISAL_MAXIMUM_VALUE exceed = 15"
| "IV_APPRAISAL_MAXIMUM_VALUE impressed = 14"
| "IV_APPRAISAL_MAXIMUM_VALUE trending = 12"
| "IV_APPRAISAL_MAXIMUM_VALUE norm_iv = 7"

subsection \<open>Species and hidden stats (species.py and iv.py, not part of the sources)\<close>

text \<open>
  Modelled from the spec: a species is a static record of base attack, defense and stamina
  (section 3); pokemon.py reads its fields \<^verbatim>\<open>name\<close>, \<^verbatim>\<open>att\<close>, \<^verbatim>\<open>dfn\<close> and \<^verbatim>\<open>sta\<close>.
\<close>

record Species =
  name :: string
  att :: nat
  dfn :: nat
  sta :: nat

text \<open>
  Modelled from the spec: the class \<^verbatim>\<open>iv.IV\<close> is missing. Section 3 describes it as an
  immutable triple of non-negative integers (attack, defense, stamina) together with a
  level index; one step of the index is one half level.
\<close>

record IV =
  att :: nat
  dfn :: nat
  sta :: nat
  level :: nat

text \<open>
  Modelled from the spec: the game tables that iv.py consults are missing. They are
  parameters of the model: the CP multiplier of each level index (section 6), the level
  indices a fresh capture can have at a given dust cost, with and without half levels
  (section 4.1), and the maximum modelled level index. A multiplier is a float of the
  table: the real number that this double denotes.
\<close>

record GameData =
  cp_multiplier :: "nat \<Rightarrow> real"
  dust_levels :: "int \<Rightarrow> bool \<Rightarrow> nat list"
  max_level :: nat

text \<open>
  Modelled from the spec: the property \<^verbatim>\<open>IV.cp_scalar\<close> is the multiplier of the level index.
\<close>

definition cp_scalar :: "GameData \<Rightarrow> IV \<Rightarrow> real" where
  "cp_scalar gd iv = cp_multiplier gd (level iv)"

text \<open>
  Modelled from the spec: the property \<^verbatim>\<open>IV.percentage\<close> is the overall quality
  percentage \<^verbatim>\<open>(att+dfn+sta) / (3 * MAX_IV) * 100\<close> with \<^verbatim>\<open>MAX_IV = 15\<close> (section 4.3).
\<close>

definition percentage :: "IV \<Rightarrow> real" where
  "percentage iv = real (IV.att iv + IV.dfn iv + IV.sta iv) / (3 * 15) * 100"

subsection \<open>Errors\<close>

text \<open>
  The exceptions the modelled code can raise. \<open>LevelOutOfRange\<close> is the error of
  \<^verbatim>\<open>increment_level\<close>. \<open>ValueError_empty_sequence\<close> is the \<^verbatim>\<open>ValueError\<close> of \<^verbatim>\<open>min\<close> or \<^verbatim>\<open>max\<close>
  on an empty sequence. \<open>FloatError\<close> stands for the exception that the float arithmetic
  of \<^verbatim>\<open>calc_cp\<close> and \<^verbatim>\<open>calc_hp\<close> raises: \<^verbatim>\<open>ValueError\<close> for \<^verbatim>\<open>math.sqrt\<close> of a negative number,
  \<^verbatim>\<open>OverflowError\<close> for an integer too large to convert to a float, and \<^verbatim>\<open>OverflowError\<close> or
  \<^verbatim>\<open>ValueError\<close> for \<^verbatim>\<open>int\<close> of an infinity or a NaN. They are one value here because a
  comprehension over a set raises the exception of the first candidate it meets that has
  one, and the order in which Python iterates a set is not fixed by its elements.
\<close>

datatype error =
    UnboundLocalError
  | LevelOutOfRange
  | FloatError
  | ValueError_empty_sequence

text \<open>
  Modelled from the spec: \<^verbatim>\<open>IV.increment_level\<close> is missing. Section 4.1 (\<^verbatim>\<open>advance\<close>): the
  same attack, defense and stamina with the level index advanced by the number of growth
  steps; it fails when the resulting level exceeds the maximum modelled level.
\<close>

definition increment_level :: "GameData \<Rightarrow> nat \<Rightarrow> IV \<Rightarrow> error + IV" where
  "increment_level gd power_ups iv =
     (if max_level gd < level iv + power_ups then Inl LevelOutOfRange
      else Inr (iv\<lparr>level := level iv + power_ups\<rparr>))"

text \<open>
  Modelled from the spec: \<^verbatim>\<open>IV.possible_ivs\<close> is missing. Section 4.1
  (\<^verbatim>\<open>initial_candidates\<close>): every level index reachable at the dust cost, crossed with every
  attack, defense and stamina from 0 to 15.
\<close>

definition possible_ivs :: "GameData \<Rightarrow> int \<Rightarrow> bool \<Rightarrow> IV set" where
  "possible_ivs gd dust half_levels =
     set [\<lparr>att = a, dfn = d, sta = s, level = l\<rparr>.
            l \<leftarrow> dust_levels gd dust half_levels,
            a \<leftarrow> [0..<16], d \<leftarrow> [0..<16], s \<leftarrow> [0..<16]]"

subsection \<open>Appraisal statements (appraisal.py, lines 92-93)\<close>

text \<open>
  The named tuple \<^verbatim>\<open>Appraisal\<close>; the constructor takes its fields by position, in the order
  \<^verbatim>\<open>overall, top_att, top_dfn, top_hp, top_iv\<close>.
\<close>

datatype Appraisal =
  Appraisal (overall: OverallAppraisal) (top_att: bool) (top_dfn: bool) (top_hp: bool)
    (top_iv: TopIV)

subsection \<open>Snapshots and the tracked record (pokemon.py, lines 49-113)\<close>

text \<open>
  The three named tuples, with their fields in the source's order. The observed CP and HP
  are integers; the number of power-ups is a count of growth steps.
\<close>

datatype Snapshot =
    StartSnapshot Species (cp: int) (hp: int) (dust: int) bool
  | PowerUpSnapshot (cp: int) (hp: int) (dust: int) nat
  | EvolutionSnapshot Species (cp: int) (hp: int) (dust: int) nat

text \<open>
  \<^verbatim>\<open>snapshot.species\<close>: a \<^verbatim>\<open>PowerUpSnapshot\<close> has no such attribute, which is \<open>None\<close> here
  (the source catches the \<^verbatim>\<open>AttributeError\<close> wherever it reads the attribute).
\<close>

fun snapshot_species :: "Snapshot \<Rightarrow> Species option" where
  "snapshot_species (StartSnapshot sp c h d hl) = Some sp"
| "snapshot_species (PowerUpSnapshot c h d n) = None"
| "snapshot_species (EvolutionSnapshot sp c h d n) = Some sp"

text \<open>\<^verbatim>\<open>isinstance(snapshot, StartSnapshot)\<close>.\<close>

fun is_StartSnapshot :: "Snapshot \<Rightarrow> bool" where
  "is_StartSnapshot (StartSnapshot sp c h d hl) = True"
| "is_StartSnapshot (PowerUpSnapshot c h d n) = False"
| "is_StartSnapshot (EvolutionSnapshot sp c h d n) = False"

record Pokemon =
  snapshots :: "Snapshot list"
  appraisal :: "Appraisal option"
  nickname :: "string option"

section \<open>Operations\<close>

subsection \<open>The appraisal check (appraisal.py, lines 94-120)\<close>

definition valid_iv :: "Appraisal \<Rightarrow> IV \<Rightarrow> bool" where
  "valid_iv self iv =
     (if percentage iv < OVERALL_APPRAISAL_MINIMUM_PERCENTS (overall self) then False
      else if percentage iv > OVERALL_APPRAISAL_MAXIMUM_PERCENTS (overall self) then False
      else
        let top = max (max (IV.att iv) (IV.dfn iv)) (IV.sta iv) in
        if top < IV_APPRAISAL_MINIMUM_VALUE (top_iv self) then False
        else if top > IV_APPRAISAL_MAXIMUM_VALUE (top_iv self) then False
        else if top_att self \<and> top \<noteq> IV.att iv then False
        else if \<not> top_att self \<and> top = IV.att iv then False
        else if top_dfn self \<and> top \<noteq> IV.dfn iv then False
        else if \<not> top_dfn self \<and> top = IV.dfn iv then False
        else if top_hp self \<and> top \<noteq> IV.sta iv then False
        else if \<not> top_hp self \<and> top = IV.sta iv then False
        else True)"

subsection \<open>Building a record (pokemon.py, lines 132-147)\<close>

definition new :: "Species \<Rightarrow> int \<Rightarrow> int \<Rightarrow> int \<Rightarrow> string option \<Rightarrow> bool \<Rightarrow> Pokemon" where
  "new species c h d nm half_levels =
     \<lparr>snapshots = [StartSnapshot species c h d half_levels], appraisal = None,
      nickname = nm\<rparr>"

definition power_up :: "Pokemon \<Rightarrow> int \<Rightarrow> int \<Rightarrow> int \<Rightarrow> nat \<Rightarrow> Pokemon" where
  "power_up self c h d power_ups =
     self\<lparr>snapshots := snapshots self @ [PowerUpSnapshot c h d power_ups]\<rparr>"

definition evolve :: "Pokemon \<Rightarrow> Species \<Rightarrow> int \<Rightarrow> int \<Rightarrow> int \<Rightarrow> nat \<Rightarrow> Pokemon" where
  "evolve self species c h d power_ups =
     self\<lparr>snapshots := snapshots self @ [EvolutionSnapshot species c h d power_ups]\<rparr>"

text \<open>
  \<^verbatim>\<open>appraise(self, overall, top_hp, top_att, top_dfn, top_iv)\<close> passes its arguments to the
  named tuple by position, in the order of its own parameter list.
\<close>

definition appraise ::
  "Pokemon \<Rightarrow> OverallAppraisal \<Rightarrow> bool \<Rightarrow> bool \<Rightarrow> bool \<Rightarrow> TopIV \<Rightarrow> Pokemon" where
  "appraise self overall_arg top_hp_arg top_att_arg top_dfn_arg top_iv_arg =
     self\<lparr>appraisal := Some (Appraisal overall_arg top_hp_arg top_att_arg top_dfn_arg
                               top_iv_arg)\<rparr>"

subsection \<open>Python floats\<close>

text \<open>
  A Python float is an IEEE 754 binary64 number. A finite float is modelled by the real
  number it denotes. Every float operation of the source (the conversion of an integer,
  \<^verbatim>\<open>*\<close>, \<^verbatim>\<open>/\<close>, \<^verbatim>\<open>math.sqrt\<close>) returns the exact result rounded to the nearest double, ties
  to the even significand: \<open>round_double\<close>. A double in the binade of exponent \<open>e\<close> is a
  multiple of \<open>2 powr (e - 52)\<close>; below the exponent -1022 the doubles are subnormal and
  keep the spacing of that exponent.
\<close>

definition round_half_even :: "real \<Rightarrow> int" where
  "round_half_even y =
     (let n = \<lfloor>y\<rfloor>; r = y - of_int n
      in if r < 1 / 2 then n else if 1 / 2 < r then n + 1 else if even n then n else n + 1)"

definition exponent :: "real \<Rightarrow> int" where
  "exponent x = max \<lfloor>log 2 \<bar>x\<bar>\<rfloor> (- 1022)"

definition quantum :: "real \<Rightarrow> real" where
  "quantum x = 2 powr (of_int (exponent x) - 52)"

definition round_double :: "real \<Rightarrow> real" where
  "round_double x =
     (if x = 0 then 0 else quantum x * of_int (round_half_even (x / quantum x)))"

text \<open>
  A rounded result of magnitude \<open>2 ^ 1024\<close> or more is no finite double. The conversion of
  an integer then raises \<^verbatim>\<open>OverflowError\<close>. A product becomes an infinity instead; in
  \<^verbatim>\<open>calc_cp\<close> and \<^verbatim>\<open>calc_hp\<close> every later operation (\<^verbatim>\<open>*\<close> by a finite float, \<^verbatim>\<open>/ 10\<close>) turns an
  infinity into an infinity or a NaN, and the final \<^verbatim>\<open>int\<close> raises on both. So in these two
  functions an overflowing operation always ends in an exception, which is raised here
  where the overflow happens.
\<close>

definition finite_double :: "real \<Rightarrow> error + real" where
  "finite_double z = (if 2 ^ 1024 \<le> \<bar>z\<bar> then Inl FloatError else Inr z)"

definition float_of_int :: "int \<Rightarrow> error + real" where
  "float_of_int n = finite_double (round_double (of_int n))"

definition fmul :: "real \<Rightarrow> real \<Rightarrow> error + real" where
  "fmul x y = finite_double (round_double (x * y))"

text \<open>The source divides by the literal 10 only; such a quotient cannot overflow.\<close>

definition fdiv :: "real \<Rightarrow> real \<Rightarrow> real" where
  "fdiv x y = round_double (x / y)"

text \<open>\<^verbatim>\<open>math.sqrt\<close> raises \<^verbatim>\<open>ValueError\<close> on a negative argument.\<close>

definition fsqrt :: "real \<Rightarrow> error + real" where
  "fsqrt x = (if x < 0 then Inl FloatError else Inr (round_double (sqrt x)))"

text \<open>\<^verbatim>\<open>int(x)\<close> truncates a finite float towards zero.\<close>

definition py_int :: "real \<Rightarrow> int" where
  "py_int x = (if 0 \<le> x then \<lfloor>x\<rfloor> else \<lceil>x\<rceil>)"

text \<open>Sequencing: an exception ends the evaluation.\<close>

definition on_result :: "error + 'a \<Rightarrow> ('a \<Rightarrow> error + 'b) \<Rightarrow> error + 'b" where
  "on_result r f = (case r of Inl e \<Rightarrow> Inl e | Inr x \<Rightarrow> f x)"

text \<open>
  The doubles, for the proofs: an integer significand below \<open>2 ^ 53\<close> times a power of two
  not below the smallest subnormal.
\<close>

definition is_double :: "real \<Rightarrow> bool" where
  "is_double x \<longleftrightarrow> (\<exists>m k. x = of_int m * 2 powr of_int k \<and> \<bar>m\<bar> < 2 ^ 53 \<and> - 1074 \<le> k)"

subsection \<open>Forward simulation (pokemon.py, lines 175-194)\<close>

text \<open>
  \<^verbatim>\<open>calc_cp\<close> evaluates
  \<^verbatim>\<open>(species.att + iv.att) * sqrt(species.dfn + iv.dfn) * sqrt(species.sta + iv.sta) * iv.cp_scalar / 10\<close>
  from left to right: the sums are Python integers, \<^verbatim>\<open>sqrt\<close> converts its argument to a
  float, and an integer times a float converts the integer first.
\<close>

definition calc_cp :: "GameData \<Rightarrow> Species \<Rightarrow> IV \<Rightarrow> error + int" where
  "calc_cp gd species iv =
     on_result (float_of_int (int (Species.dfn species + IV.dfn iv))) (\<lambda>d.
     on_result (fsqrt d) (\<lambda>root_dfn.
     on_result (float_of_int (int (Species.att species + IV.att iv))) (\<lambda>a.
     on_result (fmul a root_dfn) (\<lambda>t1.
     on_result (float_of_int (int (Species.sta species + IV.sta iv))) (\<lambda>s.
     on_result (fsqrt s) (\<lambda>root_sta.
     on_result (fmul t1 root_sta) (\<lambda>t2.
     on_result (fmul t2 (cp_scalar gd iv)) (\<lambda>t3.
     let cp = py_int (fdiv t3 10) in Inr (max cp 10)))))))))"

definition calc_hp :: "GameData \<Rightarrow> Species \<Rightarrow> IV \<Rightarrow> error + int" where
  "calc_hp gd species iv =
     on_result (fsqrt (cp_scalar gd iv)) (\<lambda>root.
     on_result (float_of_int (int (Species.sta species + IV.sta iv))) (\<lambda>s.
     on_result (fmul s root) (\<lambda>t.
     let hp = py_int t in Inr (max hp 10))))"

subsection \<open>The current species of a record (pokemon.py, lines 149-155)\<close>

text \<open>
  The property \<^verbatim>\<open>Pokemon.species\<close> walks the snapshots from the last to the first and
  returns the species of the first one that has one; without any, it returns \<^verbatim>\<open>None\<close>.
\<close>

fun first_species :: "Snapshot list \<Rightarrow> Species option" where
  "first_species [] = None"
| "first_species (snapshot # rest) =
     (case snapshot_species snapshot of Some sp \<Rightarrow> Some sp | None \<Rightarrow> first_species rest)"

definition species :: "Pokemon \<Rightarrow> Species option" where
  "species self = first_species (rev (snapshots self))"

subsection \<open>History reduction (pokemon.py, lines 196-221)\<close>

text \<open>
  The local variables of \<^verbatim>\<open>calc_ivs\<close>: \<^verbatim>\<open>species\<close> and \<^verbatim>\<open>possible_ivs\<close>, each unbound
  (\<open>None\<close>) until its first assignment.
\<close>

record calc_state =
  species_var :: "Species option"
  possible_ivs_var :: "IV set option"

definition unbound :: calc_state where
  "unbound = \<lparr>species_var = None, possible_ivs_var = None\<rparr>"

text \<open>Lines 198-204: a snapshot with a species assigns it, any other leaves the variable.\<close>

definition next_species :: "calc_state \<Rightarrow> Snapshot \<Rightarrow> Species option" where
  "next_species st snapshot =
     (case snapshot_species snapshot of Some sp \<Rightarrow> Some sp | None \<Rightarrow> species_var st)"

text \<open>
  Line 210: the set comprehension calls \<^verbatim>\<open>increment_level\<close> on every candidate; an
  exception raised for any of them leaves the comprehension and \<^verbatim>\<open>calc_ivs\<close>.
\<close>

definition advance_all :: "GameData \<Rightarrow> nat \<Rightarrow> IV set \<Rightarrow> error + IV set" where
  "advance_all gd power_ups ivs =
     (if \<exists>iv\<in>ivs. isl (increment_level gd power_ups iv) then Inl LevelOutOfRange
      else Inr ((\<lambda>iv. projr (increment_level gd power_ups iv)) ` ivs))"

text \<open>Lines 206-211: the candidates before the observation filter.\<close>

fun next_candidates :: "GameData \<Rightarrow> calc_state \<Rightarrow> Snapshot \<Rightarrow> error + IV set" where
  "next_candidates gd st (StartSnapshot sp c h d half_levels) =
     Inr (possible_ivs gd d half_levels)"
| "next_candidates gd st (PowerUpSnapshot c h d power_ups) =
     (case possible_ivs_var st of
        None \<Rightarrow> Inl UnboundLocalError
      | Some ivs \<Rightarrow> advance_all gd power_ups ivs)"
| "next_candidates gd st (EvolutionSnapshot sp c h d power_ups) =
     (case possible_ivs_var st of
        None \<Rightarrow> Inl UnboundLocalError
      | Some ivs \<Rightarrow> advance_all gd power_ups ivs)"

text \<open>
  Lines 213-215: the observation filter. The condition is evaluated for every candidate:
  it reads \<^verbatim>\<open>species\<close>, calls \<^verbatim>\<open>calc_cp\<close>, and calls \<^verbatim>\<open>calc_hp\<close> only when the CP matches.
  An exception raised for any candidate leaves the comprehension and \<^verbatim>\<open>calc_ivs\<close>.
\<close>

definition filter_obs ::
  "GameData \<Rightarrow> Species option \<Rightarrow> Snapshot \<Rightarrow> IV set \<Rightarrow> error + IV set" where
  "filter_obs gd species_opt snapshot ivs =
     (if ivs = {} then Inr {}
      else case species_opt of
        None \<Rightarrow> Inl UnboundLocalError
      | Some sp \<Rightarrow>
          if \<exists>iv\<in>ivs. isl (calc_cp gd sp iv) \<or>
                     (calc_cp gd sp iv = Inr (cp snapshot) \<and> isl (calc_hp gd sp iv))
          then Inl FloatError
          else Inr {iv \<in> ivs. calc_cp gd sp iv = Inr (cp snapshot) \<and>
                              calc_hp gd sp iv = Inr (hp snapshot)})"

text \<open>One iteration of the loop over the snapshots.\<close>

definition calc_step :: "GameData \<Rightarrow> calc_state \<Rightarrow> Snapshot \<Rightarrow> error + calc_state" where
  "calc_step gd st snapshot =
     (let sp = next_species st snapshot in
      case next_candidates gd st snapshot of
        Inl e \<Rightarrow> Inl e
      | Inr ivs \<Rightarrow>
          (case filter_obs gd sp snapshot ivs of
             Inl e \<Rightarrow> Inl e
           | Inr ivs' \<Rightarrow> Inr \<lparr>species_var = sp, possible_ivs_var = Some ivs'\<rparr>))"

fun calc_loop :: "GameData \<Rightarrow> calc_state \<Rightarrow> Snapshot list \<Rightarrow> error + calc_state" where
  "calc_loop gd st [] = Inr st"
| "calc_loop gd st (snapshot # rest) =
     (case calc_step gd st snapshot of
        Inl e \<Rightarrow> Inl e
      | Inr st' \<Rightarrow> calc_loop gd st' rest)"

text \<open>Lines 217-221: the appraisal filter and the return, both reading \<^verbatim>\<open>possible_ivs\<close>.\<close>

definition calc_ivs :: "GameData \<Rightarrow> Pokemon \<Rightarrow> error + IV set" where
  "calc_ivs gd self =
     (case calc_loop gd unbound (snapshots self) of
        Inl e \<Rightarrow> Inl e
      | Inr st \<Rightarrow>
          (case possible_ivs_var st of
             None \<Rightarrow> Inl UnboundLocalError
           | Some ivs \<Rightarrow>
               (case appraisal self of
                  None \<Rightarrow> Inr ivs
                | Some a \<Rightarrow> Inr {iv \<in> ivs. valid_iv a iv})))"

subsection \<open>The quality range (pokemon.py, lines 223-227)\<close>

text \<open>Python's \<^verbatim>\<open>min\<close> and \<^verbatim>\<open>max\<close> of an iterable raise \<^verbatim>\<open>ValueError\<close> when it is empty.\<close>

definition py_min :: "real set \<Rightarrow> error + real" where
  "py_min xs = (if xs = {} then Inl ValueError_empty_sequence else Inr (Min xs))"

definition py_max :: "real set \<Rightarrow> error + real" where
  "py_max xs = (if xs = {} then Inl ValueError_empty_sequence else Inr (Max xs))"

definition percentage_range :: "GameData \<Rightarrow> Pokemon \<Rightarrow> error + real \<times> real" where
  "percentage_range gd self =
     (case calc_ivs gd self of
        Inl e \<Rightarrow> Inl e
      | Inr ivs \<Rightarrow>
          (case py_min (percentage ` ivs) of
             Inl e \<Rightarrow> Inl e
           | Inr minimum \<Rightarrow>
               (case py_max (percentage ` ivs) of
                  Inl e \<Rightarrow> Inl e
                | Inr maximum \<Rightarrow> Inr (minimum, maximum))))"

subsection \<open>The invariant of the loop\<close>

text \<open>
  After an iteration that did not raise, both local variables are bound, and the candidate
  set is finite.
\<close>

definition bound :: "calc_state \<Rightarrow> bool" where
  "bound st \<longleftrightarrow>
     species_var st \<noteq> None \<and> (\<exists>ivs. possible_ivs_var st = Some ivs \<and> finite ivs)"

section \<open>A worked history\<close>

text \<open>
  Concrete tables and species for the examples below. Every level has the multiplier 1/4;
  a capture can be at the level indices 76 and 78, and at 77 too when half levels are
  enabled; the highest level index is 79. For the perfect triple the square roots in the
  two formulas are taken of 100, 144 and 1/4, and every operation is exact.
\<close>

definition example_data :: GameData where
  "example_data =
     \<lparr>cp_multiplier = (\<lambda>l. 1 / 4),
      dust_levels = (\<lambda>dust half_levels. if half_levels then [76, 77, 78] else [76, 78]),
      max_level = 79\<rparr>"

definition base_species :: Species where
  "base_species = \<lparr>name = ''base'', att = 25, dfn = 85, sta = 85\<rparr>"

definition evolved_species :: Species where
  "evolved_species = \<lparr>name = ''evolved'', att = 45, dfn = 129, sta = 85\<rparr>"

definition perfect_iv :: "nat \<Rightarrow> IV" where
  "perfect_iv l = \<lparr>att = 15, dfn = 15, sta = 15, level = l\<rparr>"

section \<open>Basic facts\<close>

subsection \<open>Rounding to a double\<close>

lemma round_half_even_le: "y \<le> of_int N \<Longrightarrow> round_half_even y \<le> N"
proof -
  assume h: "y \<le> of_int N"
  then have fl: "\<lfloor>y\<rfloor> \<le> N" by (simp add: floor_le_iff)
  show ?thesis
  proof (cases "\<lfloor>y\<rfloor> = N")
    case True
    then have "of_int N \<le> y" using of_int_floor_le [of y] by simp
    with h have "y = of_int N" by simp
    then show ?thesis by (simp add: round_half_even_def)
  next
    case False
    with fl have "\<lfloor>y\<rfloor> + 1 \<le> N" by simp
    then show ?thesis by (simp add: round_half_even_def Let_def)
  qed
qed

lemma round_half_even_ge: "of_int N \<le> y \<Longrightarrow> N \<le> round_half_even y"
proof -
  assume "of_int N \<le> y"
  then have "N \<le> \<lfloor>y\<rfloor>" by (simp add: le_floor_iff)
  then show ?thesis by (simp add: round_half_even_def Let_def)
qed

lemma round_half_even_of_int [simp]: "round_half_even (of_int N) = N"
  by (simp add: round_half_even_def)

lemma quantum_pos: "0 < quantum x"
  by (simp add: quantum_def)

lemma exponent_ge: "- 1022 \<le> exponent x"
  by (simp add: exponent_def)

lemma exponent_upper:
  assumes "0 < x"
  shows "x < 2 powr (of_int (exponent x) + 1)"
proof -
  have "log 2 x < of_int \<lfloor>log 2 x\<rfloor> + 1" by linarith
  also have "\<dots> \<le> of_int (exponent x) + 1" using assms by (simp add: exponent_def)
  finally have "2 powr log 2 x < 2 powr (of_int (exponent x) + 1)" by simp
  with assms show ?thesis by simp
qed

lemma exponent_lower:
  assumes "0 < x" and "- 1022 < exponent x"
  shows "2 powr of_int (exponent x) \<le> x"
proof -
  from assms have "exponent x = \<lfloor>log 2 x\<rfloor>" by (simp add: exponent_def max_def split: if_splits)
  then have "of_int (exponent x) \<le> log 2 x" by simp
  then have "2 powr of_int (exponent x) \<le> 2 powr log 2 x" by simp
  with assms show ?thesis by simp
qed

lemma two_powr_int: "0 \<le> j \<Longrightarrow> (2::real) powr of_int j = 2 ^ nat j"
  by (simp add: powr_real_of_int)

lemma double_over_quantum:
  assumes "- 52 \<le> k - e"
  shows "of_int m * (2::real) powr of_int k / 2 powr (of_int e - 52) =
         of_int (m * 2 ^ nat (k - e + 52))"
proof -
  define j where "j = k - e + 52"
  have j: "0 \<le> j" using assms by (simp add: j_def)
  have "(2::real) powr of_int k / 2 powr (of_int e - 52) = 2 powr (of_int k - (of_int e - 52))"
    by (simp add: powr_diff)
  also have "of_int k - (of_int e - 52) = (of_int j :: real)" by (simp add: j_def)
  also have "2 powr (of_int j :: real) = 2 ^ nat j" by (rule two_powr_int [OF j])
  finally have q: "(2::real) powr of_int k / 2 powr (of_int e - 52) = 2 ^ nat (k - e + 52)"
    by (simp add: j_def)
  have "of_int m * (2::real) powr of_int k / 2 powr (of_int e - 52) =
        of_int m * ((2::real) powr of_int k / 2 powr (of_int e - 52))" by simp
  also have "\<dots> = of_int m * 2 ^ nat (k - e + 52)" by (simp only: q)
  finally show ?thesis by simp
qed

lemma of_int_less_two53: "\<bar>m\<bar> < 2 ^ 53 \<Longrightarrow> (of_int m :: real) < 2 ^ 53"
proof -
  assume "\<bar>m\<bar> < 2 ^ 53"
  then have "m < 2 ^ 53" by simp
  then have "(of_int m :: real) < of_int (2 ^ 53)" by (simp only: of_int_less_iff)
  then show ?thesis by simp
qed

lemma round_double_upper:
  assumes "0 \<le> x" and "x \<le> y" and "is_double y"
  shows "round_double x \<le> y"
proof (cases "x = 0")
  case True
  with assms show ?thesis by (simp add: round_double_def)
next
  case False
  with assms have x: "0 < x" by simp
  from assms(3) obtain m k where y: "y = of_int m * 2 powr of_int k"
    and m: "\<bar>m\<bar> < 2 ^ 53" and k: "- 1074 \<le> k" by (auto simp: is_double_def)
  let ?e = "exponent x"
  have ke: "- 52 \<le> k - ?e"
  proof (cases "?e = - 1022")
    case True
    with k show ?thesis by simp
  next
    case False
    with exponent_ge [of x] have "- 1022 < ?e" by simp
    from exponent_lower [OF x this] assms(2) have "(2::real) powr of_int ?e \<le> of_int m * 2 powr of_int k"
      by (simp add: y)
    also have "\<dots> < 2 ^ 53 * 2 powr of_int k"
      using of_int_less_two53 [OF m] by simp
    also have "\<dots> = 2 powr (53 + of_int k)" by (simp add: powr_add)
    finally have "(of_int ?e :: real) < 53 + of_int k" by simp
    then have "?e < 53 + k" by linarith
    then show ?thesis by simp
  qed
  have "x / quantum x \<le> y / quantum x"
    using assms(2) quantum_pos [of x] by (simp add: divide_right_mono)
  also have "y / quantum x = of_int (m * 2 ^ nat (k - ?e + 52))"
    unfolding y quantum_def by (rule double_over_quantum [OF ke])
  finally have "round_half_even (x / quantum x) \<le> m * 2 ^ nat (k - ?e + 52)"
    by (rule round_half_even_le)
  then have "of_int (round_half_even (x / quantum x)) \<le> (of_int (m * 2 ^ nat (k - ?e + 52)) :: real)"
    by linarith
  then have "quantum x * of_int (round_half_even (x / quantum x))
      \<le> quantum x * of_int (m * 2 ^ nat (k - ?e + 52))"
    using quantum_pos [of x] by (simp add: mult_left_mono)
  also have "\<dots> = quantum x * (y / quantum x)"
    unfolding y quantum_def by (simp only: double_over_quantum [OF ke])
  also have "\<dots> = y" using quantum_pos [of x] by simp
  finally show ?thesis using False by (simp add: round_double_def)
qed


lemma round_double_lower:
  assumes "0 \<le> y" and "y \<le> x" and "is_double y"
  shows "y \<le> round_double x"
proof (cases "x = 0")
  case True
  with assms show ?thesis by (simp add: round_double_def)
next
  case False
  with assms have x: "0 < x" by simp
  from assms(3) obtain m k where y: "y = of_int m * 2 powr of_int k"
    and m: "\<bar>m\<bar> < 2 ^ 53" and k: "- 1074 \<le> k" by (auto simp: is_double_def)
  let ?e = "exponent x"
  let ?n = "round_half_even (x / quantum x)"
  have rd: "round_double x = quantum x * of_int ?n" using False by (simp add: round_double_def)
  show ?thesis
  proof (cases "- 52 \<le> k - ?e")
    case True
    have "y / quantum x \<le> x / quantum x"
      using assms(2) quantum_pos [of x] by (simp add: divide_right_mono)
    moreover have yq: "y / quantum x = of_int (m * 2 ^ nat (k - ?e + 52))"
      unfolding y quantum_def by (rule double_over_quantum [OF True])
    ultimately have "m * 2 ^ nat (k - ?e + 52) \<le> ?n"
      by (intro round_half_even_ge) simp
    then have "(of_int (m * 2 ^ nat (k - ?e + 52)) :: real) \<le> of_int ?n" by linarith
    then have "quantum x * of_int (m * 2 ^ nat (k - ?e + 52)) \<le> quantum x * of_int ?n"
      using quantum_pos [of x] by (simp add: mult_left_mono)
    moreover have "quantum x * of_int (m * 2 ^ nat (k - ?e + 52)) = quantum x * (y / quantum x)"
      by (simp only: yq)
    moreover have "quantum x * (y / quantum x) = y" using quantum_pos [of x] by simp
    ultimately show ?thesis by (simp add: rd)
  next
    case False
    then have ke: "k \<le> ?e - 53" by simp
    with k have e: "- 1022 < ?e" by simp
    have "y < 2 ^ 53 * 2 powr of_int k"
      unfolding y using of_int_less_two53 [OF m] by simp
    also have "\<dots> = 2 powr (53 + of_int k)" by (simp add: powr_add)
    also have "\<dots> \<le> 2 powr of_int ?e"
    proof -
      have "53 + (of_int k :: real) \<le> of_int ?e" using ke by linarith
      then show ?thesis by simp
    qed
    finally have y_lt: "y < 2 powr of_int ?e" .
    have "2 powr of_int ?e / quantum x = of_int (1 * 2 ^ nat (?e - ?e + 52))"
      unfolding quantum_def using double_over_quantum [of ?e ?e 1] by simp
    then have eq: "2 powr of_int ?e / quantum x = of_int (2 ^ 52)" by simp
    have "2 powr of_int ?e / quantum x \<le> x / quantum x"
      using exponent_lower [OF x e] quantum_pos [of x] by (simp add: divide_right_mono)
    then have "of_int (2 ^ 52) \<le> x / quantum x" by (simp only: eq)
    then have "2 ^ 52 \<le> ?n" by (rule round_half_even_ge)
    then have "(of_int (2 ^ 52) :: real) \<le> of_int ?n" by linarith
    then have "quantum x * of_int (2 ^ 52) \<le> quantum x * of_int ?n"
      using quantum_pos [of x] by (simp add: mult_left_mono)
    moreover have "quantum x * of_int (2 ^ 52) = quantum x * (2 powr of_int ?e / quantum x)"
      by (simp only: eq)
    moreover have "quantum x * (2 powr of_int ?e / quantum x) = 2 powr of_int ?e"
      using quantum_pos [of x] by simp
    ultimately have "2 powr of_int ?e \<le> round_double x" by (simp add: rd)
    with y_lt show ?thesis by simp
  qed
qed

lemma round_double_exact:
  assumes "0 \<le> x" and "is_double x"
  shows "round_double x = x"
  using round_double_upper [OF assms(1) order_refl assms(2)]
        round_double_lower [OF assms(1) order_refl assms(2)]
  by simp

lemma round_double_nonneg: "0 \<le> x \<Longrightarrow> 0 \<le> round_double x"
proof -
  assume "0 \<le> x"
  moreover have "is_double 0"
    unfolding is_double_def by (rule exI [of _ 0], rule exI [of _ 0]) simp
  ultimately show ?thesis using round_double_lower [of 0 x] by simp
qed

lemma is_double_dyadic:
  assumes "\<bar>m\<bar> < 2 ^ 53" and "k \<le> 1074"
  shows "is_double (of_int m / 2 ^ k)"
proof -
  have "(2::real) powr of_int (- int k) = inverse (2 powr of_int (int k))"
    by (simp add: powr_minus)
  also have "(2::real) powr of_int (int k) = 2 ^ k"
    using two_powr_int [of "int k"] by simp
  finally have "(2::real) powr of_int (- int k) = 1 / 2 ^ k"
    by (simp add: inverse_eq_divide)
  then have "of_int m / 2 ^ k = of_int m * (2::real) powr of_int (- int k)" by simp
  with assms show ?thesis unfolding is_double_def by (intro exI [of _ m] exI [of _ "- int k"]) simp
qed

lemma is_double_nat: "n < 2 ^ 53 \<Longrightarrow> is_double (real n)"
  using is_double_dyadic [of "int n" 0] by simp

lemma round_double_eqI:
  assumes "0 < x" and "2 powr of_int e \<le> x" and "x < 2 powr (of_int e + 1)" and "- 1022 \<le> e"
    and "round_half_even (x / 2 powr (of_int e - 52)) = n"
  shows "round_double x = 2 powr (of_int e - 52) * of_int n"
proof -
  have "\<lfloor>log 2 x\<rfloor> = e"
    using assms(1-3) by (simp add: floor_log_eq_powr_iff)
  with assms(1,4) have "exponent x = e" by (simp add: exponent_def)
  with assms(1,5) show ?thesis by (simp add: round_double_def quantum_def)
qed


subsection \<open>The float operations\<close>

lemma py_int_max: "max (py_int x) 10 = max \<lfloor>x\<rfloor> 10"
proof (cases "0 \<le> x")
  case True
  then show ?thesis by (simp add: py_int_def)
next
  case False
  then have "\<lceil>x\<rceil> \<le> 0" "\<lfloor>x\<rfloor> \<le> 0" by (simp_all add: ceiling_le_iff floor_le_iff)
  with False show ?thesis by (simp add: py_int_def)
qed

lemma round_double_zero [simp]: "round_double 0 = 0"
  by (simp add: round_double_def)

lemma round_double_one [simp]: "round_double 1 = 1"
  using round_double_exact [of "real 1"] is_double_nat [of 1] by simp

lemma finite_double_Inr: "\<bar>z\<bar> < 2 ^ 1024 \<Longrightarrow> finite_double z = Inr z"
  by (simp add: finite_double_def)

lemma float_of_nat_exact:
  assumes "n < 2 ^ 53"
  shows "float_of_int (int n) = Inr (real n)"
proof -
  have "round_double (real n) = real n"
    using assms by (intro round_double_exact is_double_nat) simp_all
  moreover have "real n < 2 ^ 1024"
  proof -
    have "real n < real (2 ^ 53)" using assms by (simp only: of_nat_less_iff)
    also have "\<dots> < 2 ^ 1024" by simp
    finally show ?thesis .
  qed
  ultimately show ?thesis by (simp add: float_of_int_def finite_double_Inr)
qed

lemma fsqrt_nonneg: "0 \<le> x \<Longrightarrow> fsqrt x = Inr (round_double (sqrt x))"
  by (simp add: fsqrt_def)

lemma fmul_upper:
  assumes "0 \<le> x" "x \<le> X" "0 \<le> y" "y \<le> Y" "is_double (X * Y)" "X * Y < 2 ^ 1024"
  shows "\<exists>z. fmul x y = Inr z \<and> 0 \<le> z \<and> z \<le> X * Y"
proof -
  have xy: "0 \<le> x * y" "x * y \<le> X * Y" using assms(1-4) by (simp_all add: mult_mono)
  have up: "round_double (x * y) \<le> X * Y" using xy assms(5) by (intro round_double_upper)
  have lo: "0 \<le> round_double (x * y)" using xy(1) by (rule round_double_nonneg)
  from up lo assms(6) have "\<bar>round_double (x * y)\<bar> < 2 ^ 1024" by simp
  then have "fmul x y = Inr (round_double (x * y))" by (simp add: fmul_def finite_double_Inr)
  with up lo show ?thesis by simp
qed

lemma fmul_exact:
  assumes "0 \<le> x * y" "is_double (x * y)" "x * y < 2 ^ 1024"
  shows "fmul x y = Inr (x * y)"
  using assms by (simp add: fmul_def round_double_exact finite_double_Inr)

lemma fdiv_upper:
  assumes "0 \<le> x" "x \<le> X" "0 < y" "is_double (X / y)"
  shows "0 \<le> fdiv x y \<and> fdiv x y \<le> X / y"
proof -
  have "0 \<le> x / y" "x / y \<le> X / y" using assms(1-3) by (simp_all add: divide_right_mono)
  then show ?thesis unfolding fdiv_def using assms(4)
    by (simp add: round_double_nonneg round_double_upper)
qed

lemma py_int_nonneg: "0 \<le> x \<Longrightarrow> py_int x = \<lfloor>x\<rfloor>"
  by (simp add: py_int_def)

subsection \<open>The formulas on the worked history\<close>

lemma sqrt_100: "sqrt 100 = 10"
  using real_sqrt_abs [of 10] by simp

lemma sqrt_144: "sqrt 144 = 12"
  using real_sqrt_abs [of 12] by simp

lemma sqrt_quarter: "sqrt (1 / 4) = 1 / 2"
  using real_sqrt_abs [of "1 / 2"] by (simp add: power2_eq_square)

lemma round_double_half [simp]: "round_double (1 / 2) = 1 / 2"
  using round_double_exact [of "1 / 2"] is_double_dyadic [of 1 1] by simp

lemma cp_scalar_example: "cp_scalar example_data iv = 1 / 4"
  by (simp add: cp_scalar_def example_data_def)

lemma round_double_nat: "n < 2 ^ 53 \<Longrightarrow> round_double (real n) = real n"
  by (intro round_double_exact is_double_nat) simp_all

lemma fmul_nat:
  assumes "m * n < 2 ^ 53"
  shows "fmul (real m) (real n) = Inr (real (m * n))"
proof -
  have "real (m * n) < real (2 ^ 53)" using assms by (simp only: of_nat_less_iff)
  also have "\<dots> < 2 ^ 1024" by simp
  finally have "real m * real n < 2 ^ 1024" by simp
  moreover have "is_double (real m * real n)"
    using is_double_nat [OF assms] by simp
  ultimately show ?thesis by (simp add: fmul_exact)
qed

lemma fmul_quarter:
  assumes "n < 2 ^ 53"
  shows "fmul (real n) (1 / 4) = Inr (real n / 4)"
proof -
  have "real n < real (2 ^ 53)" using assms by (simp only: of_nat_less_iff)
  also have "\<dots> < 2 ^ 1024" by simp
  finally have "real n * (1 / 4) < 2 ^ 1024" by simp
  moreover have "is_double (real n * (1 / 4))"
    using is_double_dyadic [of "int n" 2] assms by simp
  ultimately show ?thesis using fmul_exact [of "real n" "1 / 4"] by simp
qed

lemmas float_consts =
  float_of_nat_exact [of 100, simplified] float_of_nat_exact [of 144, simplified]
  float_of_nat_exact [of 40, simplified] float_of_nat_exact [of 60, simplified]
  round_double_nat [of 10, simplified] round_double_nat [of 12, simplified]
  round_double_nat [of 100, simplified] round_double_nat [of 180, simplified]
  fmul_nat [of 40 10, simplified] fmul_nat [of 400 10, simplified]
  fmul_nat [of 60 12, simplified] fmul_nat [of 720 10, simplified]
  fmul_quarter [of 4000, simplified] fmul_quarter [of 7200, simplified]

lemma cp_base_perfect: "calc_cp example_data base_species (perfect_iv l) = Inr 100"
  by (simp add: calc_cp_def on_result_def base_species_def perfect_iv_def cp_scalar_example
        fsqrt_nonneg sqrt_100 float_consts fdiv_def py_int_def)

lemma cp_evolved_perfect: "calc_cp example_data evolved_species (perfect_iv l) = Inr 180"
  by (simp add: calc_cp_def on_result_def evolved_species_def perfect_iv_def cp_scalar_example
        fsqrt_nonneg sqrt_100 sqrt_144 float_consts fdiv_def py_int_def)


lemma hp_base:
  assumes "IV.sta iv \<le> 15"
  shows "calc_hp example_data base_species iv = Inr (max (int ((85 + IV.sta iv) div 2)) 10)"
proof -
  let ?n = "85 + IV.sta iv"
  have n: "?n < 2 ^ 53" using assms by simp
  have root: "fsqrt (1 / 4) = Inr (1 / 2)" by (simp add: fsqrt_nonneg sqrt_quarter)
  have conv: "float_of_int (int ?n) = Inr (real ?n)" by (rule float_of_nat_exact [OF n])
  have "is_double (real ?n * (1 / 2))" using is_double_dyadic [of "int ?n" 1] assms by simp
  moreover have "real ?n * (1 / 2) < 2 ^ 1024"
  proof -
    have "real ?n \<le> 100" using assms by simp
    then show ?thesis by simp
  qed
  ultimately have prod: "fmul (real ?n) (1 / 2) = Inr (real ?n * (1 / 2))"
    by (intro fmul_exact) simp_all
  have "real ?n * (1 / 2) = real ?n / real 2" by simp
  then have fl: "\<lfloor>real ?n * (1 / 2)\<rfloor> = int (?n div 2)" by (simp only: floor_divide_of_nat_eq)
  have "py_int (real ?n * (1 / 2)) = int (?n div 2)"
    using fl by (simp add: py_int_def)
  then show ?thesis
    using root conv prod
    by (simp add: calc_hp_def on_result_def cp_scalar_example base_species_def)
qed

lemma hp_base_iff:
  assumes "IV.sta iv \<le> 15"
  shows "calc_hp example_data base_species iv = Inr 50 \<longleftrightarrow> IV.sta iv = 15"
  using assms by (auto simp: hp_base)

lemma hp_base_perfect: "calc_hp example_data base_species (perfect_iv l) = Inr 50"
  by (simp add: hp_base perfect_iv_def)

lemma hp_evolved_perfect: "calc_hp example_data evolved_species (perfect_iv l) = Inr 50"
proof -
  have "fmul (real 100) (1 / 2) = Inr (real 100 * (1 / 2))"
    using is_double_nat [of 50] by (intro fmul_exact) simp_all
  then show ?thesis
    by (simp add: calc_hp_def on_result_def cp_scalar_example evolved_species_def perfect_iv_def
          fsqrt_nonneg sqrt_quarter float_consts py_int_def)
qed

lemma cp_chain_below:
  assumes a: "0 \<le> a" "0 \<le> r" "a * r \<le> B"
    and d1: "is_double B" and d2: "is_double (B * 10)" and d3: "is_double (B * 10 * (1 / 4))"
    and d4: "is_double (B * 10 * (1 / 4) / 10)"
    and small: "B < 100 * 4"
  shows "\<exists>z1 z2 z3. fmul a r = Inr z1 \<and> fmul z1 10 = Inr z2 \<and> fmul z2 (1 / 4) = Inr z3 \<and>
           max (py_int (fdiv z3 10)) 10 < 100"
proof -
  have b1: "B < 2 ^ 1024" using small by simp
  from fmul_upper [of a a r r] a have "0 \<le> a * r" by simp
  have up1: "round_double (a * r) \<le> B" using \<open>0 \<le> a * r\<close> a(3) d1 by (intro round_double_upper)
  have lo1: "0 \<le> round_double (a * r)" using \<open>0 \<le> a * r\<close> by (rule round_double_nonneg)
  let ?z1 = "round_double (a * r)"
  have z1: "fmul a r = Inr ?z1" using up1 lo1 b1 by (simp add: fmul_def finite_double_Inr)
  from fmul_upper [of ?z1 B 10 10] lo1 up1 d2 small
  obtain z2 where z2: "fmul ?z1 10 = Inr z2" "0 \<le> z2" "z2 \<le> B * 10" by auto
  from fmul_upper [of z2 "B * 10" "1 / 4" "1 / 4"] z2 d3 small
  obtain z3 where z3: "fmul z2 (1 / 4) = Inr z3" "0 \<le> z3" "z3 \<le> B * 10 * (1 / 4)" by auto
  from fdiv_upper [of z3 "B * 10 * (1 / 4)" 10] z3 d4
  have q: "0 \<le> fdiv z3 10" "fdiv z3 10 \<le> B * 10 * (1 / 4) / 10" by simp_all
  from q(2) small have "fdiv z3 10 < 100" by simp
  then have "\<lfloor>fdiv z3 10\<rfloor> < 100" by (simp add: floor_less_iff)
  with q(1) have "max (py_int (fdiv z3 10)) 10 < 100" by (simp add: py_int_def)
  with z1 z2(1) z3(1) show ?thesis by blast
qed

lemma cp_base_below:
  assumes "IV.att iv \<le> 15" "IV.dfn iv \<le> 15" "IV.sta iv = 15"
    and "IV.att iv \<noteq> 15 \<or> IV.dfn iv \<noteq> 15"
  shows "\<exists>c. calc_cp example_data base_species iv = Inr c \<and> c < 100"
proof -
  let ?a = "real (25 + IV.att iv)" and ?r = "round_double (sqrt (real (85 + IV.dfn iv)))"
  have conv_d: "float_of_int (int (85 + IV.dfn iv)) = Inr (real (85 + IV.dfn iv))"
    using assms(2) by (intro float_of_nat_exact) simp
  have conv_a: "float_of_int (int (25 + IV.att iv)) = Inr ?a"
    using assms(1) by (intro float_of_nat_exact) simp
  have root_d: "fsqrt (real (85 + IV.dfn iv)) = Inr ?r" by (simp add: fsqrt_nonneg)
  have r_pos: "0 \<le> ?r" by (simp add: round_double_nonneg)
  have a_pos: "0 \<le> ?a" by simp
  have "\<exists>B. ?a * ?r \<le> B \<and> is_double B \<and> is_double (B * 10) \<and> is_double (B * 10 * (1 / 4)) \<and>
          is_double (B * 10 * (1 / 4) / 10) \<and> B < 100 * 4"
  proof (cases "IV.att iv = 15")
    case False
    with assms(1) have a: "?a \<le> 39" by simp
    have "sqrt (real (85 + IV.dfn iv)) \<le> 10"
      using assms(2) real_sqrt_le_mono [of "real (85 + IV.dfn iv)" 100] by (simp add: sqrt_100)
    then have r: "?r \<le> 10" using is_double_nat [of 10] by (intro round_double_upper) simp_all
    have "?a * ?r \<le> 39 * 10" using a r r_pos by (intro mult_mono) simp_all
    moreover have "is_double (390::real)" using is_double_nat [of 390] by simp
    moreover have "is_double (3900::real)" using is_double_nat [of 3900] by simp
    moreover have "is_double (975::real)" using is_double_nat [of 975] by simp
    moreover have "is_double (195 / 2 :: real)" using is_double_dyadic [of 195 1] by simp
    ultimately show ?thesis by (intro exI [of _ 390]) simp
  next
    case True
    with assms(4) assms(2) have "real (85 + IV.dfn iv) \<le> 99" by simp
    then have "sqrt (real (85 + IV.dfn iv)) \<le> sqrt 99" by simp
    also have "sqrt 99 \<le> 319 / 32" by (rule real_le_lsqrt) (simp_all add: power2_eq_square)
    finally have r: "?r \<le> 319 / 32"
      using is_double_dyadic [of 319 5] by (intro round_double_upper) simp_all
    have a: "?a \<le> 40" using assms(1) by simp
    have "?a * ?r \<le> 40 * (319 / 32)" using a r r_pos by (intro mult_mono) simp_all
    then have "?a * ?r \<le> 1595 / 4" by simp
    moreover have "is_double (1595 / 4 :: real)" using is_double_dyadic [of 1595 2] by simp
    moreover have "is_double (7975 / 2 :: real)" using is_double_dyadic [of 7975 1] by simp
    moreover have "is_double (7975 / 8 :: real)" using is_double_dyadic [of 7975 3] by simp
    moreover have "is_double (1595 / 16 :: real)" using is_double_dyadic [of 1595 4] by simp
    ultimately show ?thesis by (intro exI [of _ "1595 / 4"]) simp
  qed
  then obtain B where B: "?a * ?r \<le> B" "is_double B" "is_double (B * 10)"
    "is_double (B * 10 * (1 / 4))" "is_double (B * 10 * (1 / 4) / 10)" "B < 100 * 4" by blast
  from cp_chain_below [OF a_pos r_pos B]
  obtain z1 z2 z3 where z: "fmul ?a ?r = Inr z1" "fmul z1 10 = Inr z2" "fmul z2 (1 / 4) = Inr z3"
    "max (py_int (fdiv z3 10)) 10 < 100" by blast
  have "calc_cp example_data base_species iv = Inr (max (py_int (fdiv z3 10)) 10)"
    using conv_d conv_a root_d z(1-3)
    by (simp add: calc_cp_def on_result_def base_species_def cp_scalar_example assms(3)
          float_consts fsqrt_nonneg sqrt_100)
  with z(4) show ?thesis by simp
qed

lemma base_match_iff:
  assumes "IV.att iv \<le> 15" "IV.dfn iv \<le> 15" "IV.sta iv \<le> 15"
  shows "calc_cp example_data base_species iv = Inr 100 \<and>
         calc_hp example_data base_species iv = Inr 50 \<longleftrightarrow> iv = perfect_iv (level iv)"
proof
  assume m: "calc_cp example_data base_species iv = Inr 100 \<and>
             calc_hp example_data base_species iv = Inr 50"
  then have s: "IV.sta iv = 15" using hp_base_iff [OF assms(3)] by simp
  have "\<not> (IV.att iv \<noteq> 15 \<or> IV.dfn iv \<noteq> 15)"
    using cp_base_below [OF assms(1,2) s] m by auto
  with s show "iv = perfect_iv (level iv)" by (simp add: perfect_iv_def)
next
  assume "iv = perfect_iv (level iv)"
  then show "calc_cp example_data base_species iv = Inr 100 \<and>
             calc_hp example_data base_species iv = Inr 50"
    using cp_base_perfect [of "level iv"] hp_base_perfect [of "level iv"] by simp
qed

lemma round_half_even_minus: "round_half_even (- y) = - round_half_even y"
proof (cases "y = of_int \<lfloor>y\<rfloor>")
  case True
  then obtain n where "y = of_int n" by blast
  then have "- y = of_int (- n)" by simp
  then show ?thesis using \<open>y = of_int n\<close> by (simp only: round_half_even_of_int)
next
  case False
  define n where "n = \<lfloor>y\<rfloor>"
  define r where "r = y - of_int n"
  have "of_int \<lfloor>y\<rfloor> \<le> y" "y < of_int \<lfloor>y\<rfloor> + 1" by linarith+
  with False have r: "0 < r" "r < 1" unfolding r_def n_def by linarith+
  have y: "y = of_int n + r" by (simp add: r_def)
  have fl: "\<lfloor>- y\<rfloor> = - n - 1"
    by (rule floor_unique) (use r in \<open>simp_all add: y\<close>)
  have r': "- y - of_int (- n - 1) = 1 - r" by (simp add: y)
  have ev: "even (- n - 1) \<longleftrightarrow> odd n" by simp
  have lhs: "round_half_even (- y) =
      (if 1 - r < 1 / 2 then - n - 1 else if 1 / 2 < 1 - r then - n
       else if odd n then - n - 1 else - n)"
    unfolding round_half_even_def Let_def fl r' ev by simp
  have rhs: "round_half_even y =
      (if r < 1 / 2 then n else if 1 / 2 < r then n + 1 else if even n then n else n + 1)"
    unfolding round_half_even_def Let_def n_def [symmetric] r_def [symmetric] by simp
  show ?thesis unfolding lhs rhs using r by auto
qed

lemma round_double_minus: "round_double (- x) = - round_double x"
  by (simp add: round_double_def quantum_def exponent_def round_half_even_minus)

lemma round_double_abs_le:
  assumes "\<bar>x\<bar> \<le> B" and "is_double B"
  shows "\<bar>round_double x\<bar> \<le> B"
proof (cases "0 \<le> x")
  case True
  with assms have "round_double x \<le> B" by (intro round_double_upper) simp_all
  with True show ?thesis using round_double_nonneg [of x] by simp
next
  case False
  then have nx: "0 \<le> - x" by simp
  with assms have "round_double (- x) \<le> B" by (intro round_double_upper) simp_all
  with nx round_double_nonneg [of "- x"] show ?thesis by (simp add: round_double_minus)
qed

lemma is_double_two_power: "is_double (2 ^ n)"
proof -
  have "(2::real) ^ n = of_int 1 * 2 powr of_int (int n)"
    using two_powr_int [of "int n"] by simp
  then show ?thesis unfolding is_double_def by (intro exI [of _ 1] exI [of _ "int n"]) simp
qed


lemma real_less_two53: "n < 2 ^ 53 \<Longrightarrow> real n \<le> 2 ^ 53"
proof -
  assume "n < 2 ^ 53"
  then have "real n < real (2 ^ 53)" by (simp only: of_nat_less_iff)
  then show ?thesis by simp
qed

lemma root_bounded:
  assumes "0 \<le> x" and "x \<le> 2 ^ 53"
  shows "0 \<le> round_double (sqrt x) \<and> round_double (sqrt x) \<le> 2 ^ 27"
proof -
  have "x \<le> (2 ^ 27)\<^sup>2" using assms(2) by simp
  then have "sqrt x \<le> 2 ^ 27" using assms(1) by (intro real_le_lsqrt) simp_all
  then have "round_double (sqrt x) \<le> 2 ^ 27"
    using assms(1) by (intro round_double_upper is_double_two_power) simp_all
  moreover have "0 \<le> round_double (sqrt x)" using assms(1) by (intro round_double_nonneg) simp
  ultimately show ?thesis by simp
qed

lemma fmul_bounded:
  assumes "\<bar>x\<bar> \<le> 2 ^ i" and "\<bar>y\<bar> \<le> 2 ^ j" and "i + j < 1024"
  shows "fmul x y = Inr (round_double (x * y)) \<and> \<bar>round_double (x * y)\<bar> \<le> 2 ^ (i + j)"
proof -
  have "\<bar>x * y\<bar> \<le> 2 ^ i * 2 ^ j"
    unfolding abs_mult using assms(1,2) by (intro mult_mono) simp_all
  then have "\<bar>x * y\<bar> \<le> 2 ^ (i + j)" by (simp add: power_add)
  then have b: "\<bar>round_double (x * y)\<bar> \<le> 2 ^ (i + j)"
    by (intro round_double_abs_le is_double_two_power)
  have "(2::real) ^ (i + j) < 2 ^ 1024" using assms(3) by (intro power_strict_increasing) simp_all
  with b have "\<bar>round_double (x * y)\<bar> < 2 ^ 1024" by linarith
  with b show ?thesis by (simp add: fmul_def finite_double_Inr)
qed

lemma calc_cp_bounded:
  assumes "Species.att sp + IV.att iv < 2 ^ 53" and "Species.dfn sp + IV.dfn iv < 2 ^ 53"
    and "Species.sta sp + IV.sta iv < 2 ^ 53" and "\<bar>cp_scalar gd iv\<bar> \<le> 2 ^ 53"
  shows "calc_cp gd sp iv =
           Inr (max (py_int (fdiv (round_double (round_double (round_double
                  (real (Species.att sp + IV.att iv) *
                   round_double (sqrt (real (Species.dfn sp + IV.dfn iv)))) *
                   round_double (sqrt (real (Species.sta sp + IV.sta iv)))) *
                   cp_scalar gd iv)) 10)) 10)"
proof -
  let ?A = "real (Species.att sp + IV.att iv)"
  let ?D = "real (Species.dfn sp + IV.dfn iv)"
  let ?S = "real (Species.sta sp + IV.sta iv)"
  let ?r1 = "round_double (sqrt ?D)" and ?r2 = "round_double (sqrt ?S)"
  let ?t1 = "round_double (?A * ?r1)"
  let ?t2 = "round_double (?t1 * ?r2)"
  have convs: "float_of_int (int (Species.att sp + IV.att iv)) = Inr ?A"
    "float_of_int (int (Species.dfn sp + IV.dfn iv)) = Inr ?D"
    "float_of_int (int (Species.sta sp + IV.sta iv)) = Inr ?S"
    using assms(1-3) by (simp_all only: float_of_nat_exact)
  have roots: "fsqrt ?D = Inr ?r1" "fsqrt ?S = Inr ?r2" by (simp_all add: fsqrt_nonneg)
  have r1: "\<bar>?r1\<bar> \<le> 2 ^ 27"
    using root_bounded [of ?D] real_less_two53 [OF assms(2)] by simp
  have r2: "\<bar>?r2\<bar> \<le> 2 ^ 27"
    using root_bounded [of ?S] real_less_two53 [OF assms(3)] by simp
  have a: "\<bar>?A\<bar> \<le> 2 ^ 53" using real_less_two53 [OF assms(1)] by simp
  from fmul_bounded [OF a r1] have t1: "fmul ?A ?r1 = Inr ?t1" "\<bar>?t1\<bar> \<le> 2 ^ (53 + 27)"
    by simp_all
  from fmul_bounded [OF t1(2) r2] have t2: "fmul ?t1 ?r2 = Inr ?t2" "\<bar>?t2\<bar> \<le> 2 ^ (53 + 27 + 27)"
    by simp_all
  from fmul_bounded [OF t2(2) assms(4)]
  have t3: "fmul ?t2 (cp_scalar gd iv) = Inr (round_double (?t2 * cp_scalar gd iv))"
    by simp
  show ?thesis
    by (simp only: calc_cp_def on_result_def convs roots t1(1) t2(1) t3 sum.case Let_def)
qed

lemma calc_hp_bounded:
  assumes "Species.sta sp + IV.sta iv < 2 ^ 53" and "0 \<le> cp_scalar gd iv"
    and "cp_scalar gd iv \<le> 2 ^ 53"
  shows "calc_hp gd sp iv =
           Inr (max \<lfloor>round_double (real (Species.sta sp + IV.sta iv) *
                                    round_double (sqrt (cp_scalar gd iv)))\<rfloor> 10)"
proof -
  let ?S = "real (Species.sta sp + IV.sta iv)"
  let ?r = "round_double (sqrt (cp_scalar gd iv))"
  have conv: "float_of_int (int (Species.sta sp + IV.sta iv)) = Inr ?S"
    using assms(1) by (simp only: float_of_nat_exact)
  have root: "fsqrt (cp_scalar gd iv) = Inr ?r" using assms(2) by (simp add: fsqrt_nonneg)
  have r: "0 \<le> ?r" "\<bar>?r\<bar> \<le> 2 ^ 27" using root_bounded [OF assms(2,3)] by simp_all
  have s: "\<bar>?S\<bar> \<le> 2 ^ 53" using real_less_two53 [OF assms(1)] by simp
  from fmul_bounded [OF s r(2)] have t: "fmul ?S ?r = Inr (round_double (?S * ?r))" by simp
  have "0 \<le> round_double (?S * ?r)" using r(1) by (intro round_double_nonneg) simp
  then have "py_int (round_double (?S * ?r)) = \<lfloor>round_double (?S * ?r)\<rfloor>"
    by (rule py_int_nonneg)
  then show ?thesis
    by (simp only: calc_hp_def on_result_def conv root t sum.case Let_def)
qed

lemma round_half_even_eqI:
  assumes "of_int n - 1 / 2 < y" and "y < of_int n + 1 / 2"
  shows "round_half_even y = n"
proof (cases "of_int n \<le> y")
  case True
  with assms(2) have "\<lfloor>y\<rfloor> = n" by (intro floor_unique) simp_all
  with assms(2) show ?thesis by (simp add: round_half_even_def Let_def)
next
  case False
  with assms(1) have "\<lfloor>y\<rfloor> = n - 1" by (intro floor_unique) simp_all
  with assms(1) False show ?thesis by (simp add: round_half_even_def Let_def)
qed

lemma sqrt_scale: "0 \<le> c \<Longrightarrow> sqrt x / (1 / c) = sqrt (x * c\<^sup>2)"
  by (simp add: real_sqrt_mult)

lemma round_double_sqrt_85: "round_double (sqrt 85) = 5190142122798746 / 2 ^ 49"
proof -
  have q: "(2::real) powr (of_int 3 - 52) = 1 / 2 ^ 49" by (simp add: powr_neg_numeral)
  have lo: "8 \<le> sqrt 85" by (rule real_le_rsqrt) simp
  have hi: "sqrt 85 < 16" by (rule real_less_lsqrt) simp_all
  have eq: "sqrt 85 / (1 / 2 ^ 49) = sqrt (85 * (2 ^ 49)\<^sup>2)"
    by (rule sqrt_scale) simp
  have "5190142122798746 - 1 / 2 < sqrt (85 * (2 ^ 49)\<^sup>2)"
    by (rule real_less_rsqrt) (simp add: power2_eq_square)
  moreover have "sqrt (85 * (2 ^ 49)\<^sup>2) < 5190142122798746 + 1 / 2"
    by (rule real_less_lsqrt) (simp_all add: power2_eq_square)
  ultimately have "round_half_even (sqrt (85 * (2 ^ 49)\<^sup>2)) = 5190142122798746"
    by (intro round_half_even_eqI) simp_all
  then have r: "round_half_even (sqrt 85 / 2 powr (of_int 3 - 52)) = 5190142122798746"
    by (simp only: q eq)
  have "round_double (sqrt 85) = 2 powr (of_int 3 - 52) * of_int 5190142122798746"
    using lo hi by (intro round_double_eqI r) simp_all
  then have "round_double (sqrt 85) = 1 / 2 ^ 49 * of_int 5190142122798746" by (simp only: q)
  then show ?thesis by simp
qed

lemma round_double_rational:
  assumes "0 < x" and "2 ^ e \<le> x" and "x < 2 ^ Suc e" and "e \<le> 52"
    and "round_half_even (x * 2 ^ (52 - e)) = n"
  shows "round_double x = of_int n / 2 ^ (52 - e)"
proof -
  have p: "(2::real) powr of_int (int e) = 2 ^ e" using two_powr_int [of "int e"] by simp
  have p1: "(2::real) powr (of_int (int e) + 1) = 2 ^ Suc e"
    using two_powr_int [of "int e + 1"] by (simp add: nat_add_distrib)
  have "(2::real) powr (of_int (int e) - 52) = 2 powr (- of_int (int (52 - e)))"
    using assms(4) by (simp add: of_nat_diff)
  also have "\<dots> = inverse (2 powr of_int (int (52 - e)))" by (simp only: powr_minus)
  also have "(2::real) powr of_int (int (52 - e)) = 2 ^ (52 - e)"
    using two_powr_int [of "int (52 - e)"] by simp
  finally have q: "(2::real) powr (of_int (int e) - 52) = 1 / 2 ^ (52 - e)"
    by (simp add: inverse_eq_divide)
  have "x / (1 / 2 ^ (52 - e)) = x * 2 ^ (52 - e)" by simp
  then have r: "round_half_even (x / 2 powr (of_int (int e) - 52)) = n"
    using assms(5) by (simp only: q)
  have b1: "2 powr of_int (int e) \<le> x" using assms(2) by (simp only: p)
  have b2: "x < 2 powr (of_int (int e) + 1)" using assms(3) by (simp only: p1)
  have "round_double x = 2 powr (of_int (int e) - 52) * of_int n"
    using assms(1) b1 b2 by (intro round_double_eqI r) simp_all
  then have "round_double x = 1 / 2 ^ (52 - e) * of_int n" by (simp only: q)
  then show ?thesis by simp
qed

lemma cp_rounds_down:
  "calc_cp example_data base_species \<lparr>att = 15, dfn = 0, sta = 0, level = 76\<rparr> = Inr 84"
proof -
  let ?r = "5190142122798746 / 2 ^ 49 :: real"
  have root: "fsqrt 85 = Inr ?r" by (simp add: fsqrt_nonneg round_double_sqrt_85)
  have conv: "float_of_int 85 = Inr 85" "float_of_int 40 = Inr 40"
    using float_of_nat_exact [of 85] float_of_nat_exact [of 40] by simp_all
  have t1: "round_double (40 * ?r) = 6487677653498432 / 2 ^ 44"
    using round_double_rational [of "40 * ?r" 8 6487677653498432]
    by (simp add: round_half_even_def)
  have t2: "round_double (6487677653498432 / 2 ^ 44 * ?r) = 7476679068876799 / 2 ^ 41"
    using round_double_rational [of "6487677653498432 / 2 ^ 44 * ?r" 11 7476679068876799]
    by (simp add: round_half_even_def)
  have t3: "round_double (7476679068876799 / 2 ^ 41 * (1 / 4)) = 7476679068876799 / 2 ^ 43"
    using round_double_exact [of "7476679068876799 / 2 ^ 43"]
      is_double_dyadic [of 7476679068876799 43] by simp
  have t4: "round_double (7476679068876799 / 2 ^ 43 / 10) = 5981343255101439 / 2 ^ 46"
    using round_double_rational [of "7476679068876799 / 2 ^ 43 / 10" 6 5981343255101439]
    by (simp add: round_half_even_def)
  have m1: "fmul 40 ?r = Inr (6487677653498432 / 2 ^ 44)"
    unfolding fmul_def t1 by (simp add: finite_double_def)
  have m2: "fmul (6487677653498432 / 2 ^ 44) ?r = Inr (7476679068876799 / 2 ^ 41)"
    unfolding fmul_def t2 by (simp add: finite_double_def)
  have m3: "fmul (7476679068876799 / 2 ^ 41) (1 / 4) = Inr (7476679068876799 / 2 ^ 43)"
    unfolding fmul_def t3 by (simp add: finite_double_def)
  have d: "fdiv (7476679068876799 / 2 ^ 43) 10 = 5981343255101439 / 2 ^ 46"
    unfolding fdiv_def by (rule t4)
  have i: "py_int (5981343255101439 / 2 ^ 46) = 84" by (simp add: py_int_def)
  show ?thesis
    by (simp add: calc_cp_def on_result_def base_species_def cp_scalar_example)
       (simp only: conv root m1 m2 m3 d i sum.case Let_def, simp)
qed

subsection \<open>The initial candidates\<close>

lemma possible_ivs_iff:
  "iv \<in> possible_ivs gd d hl \<longleftrightarrow>
     level iv \<in> set (dust_levels gd d hl) \<and> IV.att iv \<le> 15 \<and> IV.dfn iv \<le> 15 \<and> IV.sta iv \<le> 15"
proof
  assume "iv \<in> possible_ivs gd d hl"
  then show "level iv \<in> set (dust_levels gd d hl) \<and> IV.att iv \<le> 15 \<and> IV.dfn iv \<le> 15 \<and>
    IV.sta iv \<le> 15"
    unfolding possible_ivs_def by auto
next
  assume h: "level iv \<in> set (dust_levels gd d hl) \<and> IV.att iv \<le> 15 \<and> IV.dfn iv \<le> 15 \<and>
    IV.sta iv \<le> 15"
  have eq: "iv = \<lparr>att = IV.att iv, dfn = IV.dfn iv, sta = IV.sta iv, level = level iv\<rparr>"
    by simp
  have mem: "\<lparr>att = IV.att iv, dfn = IV.dfn iv, sta = IV.sta iv, level = level iv\<rparr>
        \<in> possible_ivs gd d hl"
    unfolding possible_ivs_def using h by (simp add: image_iff)
  show "iv \<in> possible_ivs gd d hl" by (subst eq) (rule mem)
qed

lemma finite_possible_ivs: "finite (possible_ivs gd d hl)"
  unfolding possible_ivs_def by simp

lemma candidates_no_error:
  assumes "IV.att iv \<le> 15" "IV.dfn iv \<le> 15" "IV.sta iv \<le> 15"
  shows "\<not> isl (calc_cp example_data base_species iv) \<and>
         \<not> isl (calc_hp example_data base_species iv)"
proof -
  have "calc_cp example_data base_species iv = Inr (max (py_int (fdiv (round_double
          (round_double (round_double
            (real (Species.att base_species + IV.att iv) *
             round_double (sqrt (real (Species.dfn base_species + IV.dfn iv)))) *
             round_double (sqrt (real (Species.sta base_species + IV.sta iv)))) *
             cp_scalar example_data iv)) 10)) 10)"
    using assms by (intro calc_cp_bounded) (simp_all add: base_species_def cp_scalar_example)
  then show ?thesis using assms(3) by (simp add: hp_base)
qed

lemma start_filter_base:
  "filter_obs example_data (Some base_species) (StartSnapshot base_species 100 50 d hl)
     (possible_ivs example_data d hl)
   = Inr (perfect_iv ` set (dust_levels example_data d hl))"
proof -
  have "{iv \<in> possible_ivs example_data d hl.
           calc_cp example_data base_species iv = Inr 100 \<and>
           calc_hp example_data base_species iv = Inr 50}
        = perfect_iv ` set (dust_levels example_data d hl)" (is "?L = ?R")
  proof (rule set_eqI)
    fix iv
    show "iv \<in> ?L \<longleftrightarrow> iv \<in> ?R"
    proof
      assume "iv \<in> ?L"
      then have p: "iv \<in> possible_ivs example_data d hl"
        and m: "calc_cp example_data base_species iv = Inr 100 \<and>
                calc_hp example_data base_species iv = Inr 50" by simp_all
      from p have b: "IV.att iv \<le> 15" "IV.dfn iv \<le> 15" "IV.sta iv \<le> 15"
        and l: "level iv \<in> set (dust_levels example_data d hl)"
        by (simp_all add: possible_ivs_iff)
      from m have "iv = perfect_iv (level iv)" using base_match_iff [OF b] by simp
      with l show "iv \<in> ?R" by (metis imageI)
    next
      assume "iv \<in> ?R"
      then obtain l where l: "l \<in> set (dust_levels example_data d hl)"
        and iv: "iv = perfect_iv l" by auto
      have "iv \<in> possible_ivs example_data d hl"
        using l by (simp add: iv possible_ivs_iff perfect_iv_def)
      then show "iv \<in> ?L" by (simp add: iv cp_base_perfect hp_base_perfect)
    qed
  qed
  then have sets: "?L = ?R" .
  show ?thesis
  proof (cases "possible_ivs example_data d hl = {}")
    case True
    then have "?L = {}" by simp
    with sets have "?R = {}" by simp
    with True show ?thesis by (simp add: filter_obs_def)
  next
    case False
    moreover have "\<forall>iv\<in>possible_ivs example_data d hl.
        \<not> isl (calc_cp example_data base_species iv) \<and>
        \<not> isl (calc_hp example_data base_species iv)"
      by (simp add: possible_ivs_iff candidates_no_error)
    ultimately show ?thesis using sets by (simp add: filter_obs_def)
  qed
qed


subsection \<open>Steps of the reduction\<close>

lemma advance_all_Inr:
  "advance_all gd n ivs = Inr ivs' \<Longrightarrow>
     ivs' = (\<lambda>iv. iv\<lparr>level := level iv + n\<rparr>) ` ivs \<and> (\<forall>iv\<in>ivs. level iv + n \<le> max_level gd)"
  by (auto simp: advance_all_def increment_level_def image_iff split: if_splits)

lemma advance_all_Inl:
  "advance_all gd n ivs = Inl err \<Longrightarrow> err = LevelOutOfRange"
  by (auto simp: advance_all_def split: if_splits)

lemma advance_all_overflow:
  "\<exists>iv\<in>ivs. max_level gd < level iv + n \<Longrightarrow> advance_all gd n ivs = Inl LevelOutOfRange"
  by (auto simp: advance_all_def increment_level_def)

lemma advance_all_card:
  assumes "advance_all gd n ivs = Inr ivs'" and "finite ivs"
  shows "finite ivs' \<and> card ivs' \<le> card ivs"
  using advance_all_Inr [OF assms(1)] assms(2) by (simp add: card_image_le)

lemma filter_obs_Inr:
  "filter_obs gd (Some sp) snapshot ivs = Inr kept \<Longrightarrow>
     kept = {iv \<in> ivs. calc_cp gd sp iv = Inr (cp snapshot) \<and>
                         calc_hp gd sp iv = Inr (hp snapshot)}"
  by (auto simp: filter_obs_def split: if_splits)

lemma filter_obs_subset:
  "filter_obs gd spo snapshot ivs = Inr kept \<Longrightarrow> kept \<subseteq> ivs"
  by (auto simp: filter_obs_def split: if_splits option.splits)

lemma filter_obs_bound:
  "filter_obs gd (Some sp) snapshot ivs \<noteq> Inl UnboundLocalError"
  by (simp add: filter_obs_def)

lemma next_candidates_unbound:
  assumes "possible_ivs_var st = None" and "\<not> is_StartSnapshot e"
  shows "next_candidates gd st e = Inl UnboundLocalError"
  using assms by (cases e) simp_all

lemma next_candidates_card:
  assumes "possible_ivs_var st = Some ivs" and "finite ivs"
    and "\<not> is_StartSnapshot e"
    and "next_candidates gd st e = Inr ivs'"
  shows "finite ivs' \<and> card ivs' \<le> card ivs"
  using assms by (cases e) (auto dest: advance_all_card)

lemma calc_step_Inr:
  assumes "calc_step gd st e = Inr st'"
  shows "\<exists>ivs kept. next_candidates gd st e = Inr ivs \<and>
           filter_obs gd (next_species st e) e ivs = Inr kept \<and>
           st' = \<lparr>species_var = next_species st e, possible_ivs_var = Some kept\<rparr>"
  using assms by (auto simp: calc_step_def Let_def split: sum.splits)

lemma calc_loop_append:
  "calc_loop gd st (xs @ ys) =
     (case calc_loop gd st xs of Inl err \<Rightarrow> Inl err | Inr st' \<Rightarrow> calc_loop gd st' ys)"
  by (induction xs arbitrary: st) (auto split: sum.splits)

lemma first_species_append:
  "first_species (xs @ ys) =
     (case first_species xs of Some sp \<Rightarrow> Some sp | None \<Rightarrow> first_species ys)"
  by (induction xs) (auto split: option.splits)

lemma first_species_none:
  "\<forall>x\<in>set xs. snapshot_species x = None \<Longrightarrow> first_species xs = None"
  by (induction xs) auto

lemma calc_loop_keeps_species:
  assumes "calc_loop gd st0 xs = Inr st1" and "\<forall>x\<in>set xs. snapshot_species x = None"
  shows "species_var st1 = species_var st0"
  using assms
proof (induction xs arbitrary: st0)
  case Nil
  then show ?case by simp
next
  case (Cons x xs)
  from Cons.prems(1) obtain st2 where s: "calc_step gd st0 x = Inr st2"
    and l: "calc_loop gd st2 xs = Inr st1" by (auto split: sum.splits)
  from calc_step_Inr [OF s] Cons.prems(2) have "species_var st2 = species_var st0"
    by (auto simp: next_species_def)
  with Cons.IH [OF l] Cons.prems(2) show ?case by simp
qed

subsection \<open>The invariant\<close>

lemma next_species_Some:
  "species_var st \<noteq> None \<or> is_StartSnapshot e \<Longrightarrow> next_species st e \<noteq> None"
  by (cases e) (auto simp: next_species_def)

lemma calc_step_bound:
  assumes "bound st \<or> is_StartSnapshot e"
  shows "calc_step gd st e \<noteq> Inl UnboundLocalError \<and>
         (\<forall>st'. calc_step gd st e = Inr st' \<longrightarrow> bound st')"
proof -
  from assms have sp: "next_species st e \<noteq> None"
    using next_species_Some [of st e] by (auto simp: bound_def)
  then obtain s where s: "next_species st e = Some s" by blast
  from assms have nc: "next_candidates gd st e \<noteq> Inl UnboundLocalError"
    by (cases e) (auto simp: bound_def dest: advance_all_Inl)
  have fin: "\<forall>ivs. next_candidates gd st e = Inr ivs \<longrightarrow> finite ivs"
    using assms
    by (cases e) (auto simp: bound_def finite_possible_ivs dest: advance_all_card)
  have no_err: "calc_step gd st e \<noteq> Inl UnboundLocalError"
    using nc filter_obs_bound [of gd s e]
    by (auto simp: calc_step_def Let_def s split: sum.splits)
  have "\<forall>st'. calc_step gd st e = Inr st' \<longrightarrow> bound st'"
  proof (intro allI impI)
    fix st' assume "calc_step gd st e = Inr st'"
    from calc_step_Inr [OF this] obtain ivs kept where
      c: "next_candidates gd st e = Inr ivs" and
      f: "filter_obs gd (next_species st e) e ivs = Inr kept" and
      st': "st' = \<lparr>species_var = next_species st e, possible_ivs_var = Some kept\<rparr>"
      by blast
    from fin c have "finite ivs" by simp
    with filter_obs_subset [OF f] have "finite kept" by (auto intro: finite_subset)
    with sp show "bound st'" by (simp add: st' bound_def)
  qed
  with no_err show ?thesis by simp
qed

lemma calc_loop_bound:
  assumes "bound st"
  shows "calc_loop gd st xs \<noteq> Inl UnboundLocalError \<and>
         (\<forall>st'. calc_loop gd st xs = Inr st' \<longrightarrow> bound st')"
  using assms
proof (induction xs arbitrary: st)
  case Nil
  then show ?case by simp
next
  case (Cons x xs)
  from calc_step_bound [of st x gd] Cons.prems
  have a: "calc_step gd st x \<noteq> Inl UnboundLocalError"
    and b: "\<forall>st'. calc_step gd st x = Inr st' \<longrightarrow> bound st'" by simp_all
  show ?case
  proof (cases "calc_step gd st x")
    case (Inl err)
    with a show ?thesis by auto
  next
    case (Inr st1)
    with b have "bound st1" by simp
    from Cons.IH [OF this] Inr show ?thesis by simp
  qed
qed

lemma calc_loop_start_bound:
  assumes "is_StartSnapshot x"
  shows "calc_loop gd st (x # xs) \<noteq> Inl UnboundLocalError \<and>
         (\<forall>st'. calc_loop gd st (x # xs) = Inr st' \<longrightarrow> bound st')"
proof -
  from calc_step_bound [of st x gd] assms
  have a: "calc_step gd st x \<noteq> Inl UnboundLocalError"
    and b: "\<forall>st'. calc_step gd st x = Inr st' \<longrightarrow> bound st'" by simp_all
  show ?thesis
  proof (cases "calc_step gd st x")
    case (Inl err)
    with a show ?thesis by auto
  next
    case (Inr st1)
    with b have "bound st1" by simp
    from calc_loop_bound [OF this, of gd xs] Inr show ?thesis by simp
  qed
qed

lemma calc_loop_unbound_Inr:
  assumes "calc_loop gd unbound xs = Inr st"
  shows "xs = [] \<and> st = unbound \<or> bound st"
proof (cases xs)
  case Nil
  with assms show ?thesis by simp
next
  case (Cons x rest)
  show ?thesis
  proof (cases "is_StartSnapshot x")
    case True
    from calc_loop_start_bound [OF True, of gd unbound rest] assms Cons show ?thesis by simp
  next
    case False
    then have "next_candidates gd unbound x = Inl UnboundLocalError"
      by (intro next_candidates_unbound) (simp_all add: unbound_def)
    then have "calc_step gd unbound x = Inl UnboundLocalError"
      by (simp add: calc_step_def Let_def)
    with assms Cons show ?thesis by simp
  qed
qed

lemma calc_loop_finite:
  assumes "calc_loop gd unbound xs = Inr st" and "possible_ivs_var st = Some ivs"
  shows "finite ivs \<and> species_var st \<noteq> None"
  using calc_loop_unbound_Inr [OF assms(1)] assms(2) by (auto simp: bound_def unbound_def)

lemma calc_ivs_finite:
  assumes "calc_ivs gd p = Inr ivs"
  shows "finite ivs"
proof -
  from assms obtain st ivs0 where l: "calc_loop gd unbound (snapshots p) = Inr st"
    and v: "possible_ivs_var st = Some ivs0" and sub: "ivs \<subseteq> ivs0"
    by (auto simp: calc_ivs_def split: sum.splits option.splits)
  from calc_loop_finite [OF l v] sub show ?thesis by (auto intro: finite_subset)
qed

subsection \<open>The worked history, step by step\<close>

lemma example_levels:
  "set (dust_levels example_data d False) = {76, 78}"
  "set (dust_levels example_data d True) = {76, 77, 78}"
  by (simp_all add: example_data_def)

lemma perfect_iv_inject [simp]: "perfect_iv l = perfect_iv m \<longleftrightarrow> l = m"
  by (simp add: perfect_iv_def)

lemma increment_perfect:
  "increment_level example_data n (perfect_iv l) =
     (if 79 < l + n then Inl LevelOutOfRange else Inr (perfect_iv (l + n)))"
  by (simp add: increment_level_def example_data_def perfect_iv_def)

lemma advance_perfect:
  assumes "\<forall>l\<in>ls. l + n \<le> 79"
  shows "advance_all example_data n (perfect_iv ` ls) = Inr (perfect_iv ` (\<lambda>l. l + n) ` ls)"
proof -
  have "\<forall>l\<in>ls. increment_level example_data n (perfect_iv l) = Inr (perfect_iv (l + n))"
    using assms by (auto simp: increment_perfect)
  then show ?thesis
    by (auto simp: advance_all_def image_iff)
qed

lemma step_start_base:
  "calc_step example_data st (StartSnapshot base_species 100 50 d hl) =
     Inr \<lparr>species_var = Some base_species,
          possible_ivs_var = Some (perfect_iv ` set (dust_levels example_data d hl))\<rparr>"
  by (simp add: calc_step_def next_species_def start_filter_base)

lemma filter_base_perfect:
  "filter_obs example_data (Some base_species) e (perfect_iv ` ls) =
     Inr (if cp e = 100 \<and> hp e = 50 then perfect_iv ` ls else {})"
  by (auto simp: filter_obs_def cp_base_perfect hp_base_perfect)

lemma filter_evolved_perfect:
  "filter_obs example_data (Some evolved_species) e (perfect_iv ` ls) =
     Inr (if cp e = 180 \<and> hp e = 50 then perfect_iv ` ls else {})"
  by (auto simp: filter_obs_def cp_evolved_perfect hp_evolved_perfect)

lemma step_power_up_base:
  assumes "\<forall>l\<in>ls. l + n \<le> 79"
  shows "calc_step example_data
           \<lparr>species_var = Some base_species, possible_ivs_var = Some (perfect_iv ` ls)\<rparr>
           (PowerUpSnapshot c h d n) =
         Inr \<lparr>species_var = Some base_species,
              possible_ivs_var =
                Some (if c = 100 \<and> h = 50 then perfect_iv ` (\<lambda>l. l + n) ` ls else {})\<rparr>"
  by (simp add: calc_step_def next_species_def advance_perfect [OF assms] filter_base_perfect)

lemma step_evolve:
  assumes "\<forall>l\<in>ls. l + n \<le> 79"
  shows "calc_step example_data
           \<lparr>species_var = spo, possible_ivs_var = Some (perfect_iv ` ls)\<rparr>
           (EvolutionSnapshot evolved_species c h d n) =
         Inr \<lparr>species_var = Some evolved_species,
              possible_ivs_var =
                Some (if c = 180 \<and> h = 50 then perfect_iv ` (\<lambda>l. l + n) ` ls else {})\<rparr>"
  by (simp add: calc_step_def next_species_def advance_perfect [OF assms] filter_evolved_perfect)

lemma step_power_up_evolved:
  assumes "\<forall>l\<in>ls. l + n \<le> 79"
  shows "calc_step example_data
           \<lparr>species_var = Some evolved_species, possible_ivs_var = Some (perfect_iv ` ls)\<rparr>
           (PowerUpSnapshot c h d n) =
         Inr \<lparr>species_var = Some evolved_species,
              possible_ivs_var =
                Some (if c = 180 \<and> h = 50 then perfect_iv ` (\<lambda>l. l + n) ` ls else {})\<rparr>"
  by (simp add: calc_step_def next_species_def advance_perfect [OF assms] filter_evolved_perfect)

lemma loop_start_base:
  "calc_loop example_data unbound [StartSnapshot base_species 100 50 d False] =
     Inr \<lparr>species_var = Some base_species,
          possible_ivs_var = Some {perfect_iv 76, perfect_iv 78}\<rparr>"
  by (simp add: step_start_base example_levels)

lemma loop_start_evolve:
  "calc_loop example_data unbound
     [StartSnapshot base_species 100 50 d False, EvolutionSnapshot evolved_species 180 50 d' 0] =
     Inr \<lparr>species_var = Some evolved_species,
          possible_ivs_var = Some {perfect_iv 76, perfect_iv 78}\<rparr>"
proof -
  have "calc_step example_data
           \<lparr>species_var = Some base_species, possible_ivs_var = Some (perfect_iv ` {76, 78})\<rparr>
           (EvolutionSnapshot evolved_species 180 50 d' 0) =
         Inr \<lparr>species_var = Some evolved_species,
              possible_ivs_var = Some (perfect_iv ` (\<lambda>l. l + 0) ` {76, 78})\<rparr>"
    by (subst step_evolve) simp_all
  then show ?thesis
    by (simp add: step_start_base example_levels)
qed

lemma calc_ivs_start_base:
  "calc_ivs example_data (new base_species 100 50 d nm False) =
     Inr {perfect_iv 76, perfect_iv 78}"
  by (simp add: calc_ivs_def new_def step_start_base example_levels)

lemma percentage_perfect: "percentage (perfect_iv l) = 100"
  by (simp add: percentage_def perfect_iv_def)

lemma valid_iv_likely_perfect:
  "\<not> valid_iv (Appraisal likely f1 f2 f3 t) (perfect_iv l)"
  by (simp add: valid_iv_def percentage_perfect)

lemma calc_ivs_contradicting_appraisal:
  "calc_ivs example_data
     \<lparr>snapshots = [StartSnapshot base_species 100 50 d hl],
      appraisal = Some (Appraisal likely f1 f2 f3 t), nickname = nm\<rparr> = Inr {}"
proof -
  have "{iv \<in> perfect_iv ` set (dust_levels example_data d hl).
          valid_iv (Appraisal likely f1 f2 f3 t) iv} = {}"
    by (auto simp: valid_iv_likely_perfect)
  then show ?thesis
    by (simp add: calc_ivs_def step_start_base)
qed

lemma calc_ivs_after_loop:
  assumes "calc_loop gd unbound (snapshots p) = Inr st" and "possible_ivs_var st = Some ivs"
  shows "calc_ivs gd p =
           Inr (case appraisal p of None \<Rightarrow> ivs | Some a \<Rightarrow> {iv \<in> ivs. valid_iv a iv})"
  using assms by (simp add: calc_ivs_def split: option.splits)

lemma percentage_range_empty:
  "calc_ivs gd p = Inr {} \<Longrightarrow> percentage_range gd p = Inl ValueError_empty_sequence"
  by (simp add: percentage_range_def py_min_def)

lemma percentage_range_nonempty:
  "calc_ivs gd p = Inr ivs \<Longrightarrow> ivs \<noteq> {} \<Longrightarrow>
     percentage_range gd p = Inr (Min (percentage ` ivs), Max (percentage ` ivs))"
  by (simp add: percentage_range_def py_min_def py_max_def)

section \<open>The appraisal check\<close>

lemma valid_iv_unfold:
  "valid_iv a iv \<longleftrightarrow>
     OVERALL_APPRAISAL_MINIMUM_PERCENTS (overall a) \<le> percentage iv \<and>
     percentage iv \<le> OVERALL_APPRAISAL_MAXIMUM_PERCENTS (overall a) \<and>
     IV_APPRAISAL_MINIMUM_VALUE (top_iv a) \<le> max (max (IV.att iv) (IV.dfn iv)) (IV.sta iv) \<and>
     max (max (IV.att iv) (IV.dfn iv)) (IV.sta iv) \<le> IV_APPRAISAL_MAXIMUM_VALUE (top_iv a) \<and>
     (top_att a \<longleftrightarrow> IV.att iv = max (max (IV.att iv) (IV.dfn iv)) (IV.sta iv)) \<and>
     (top_dfn a \<longleftrightarrow> IV.dfn iv = max (max (IV.att iv) (IV.dfn iv)) (IV.sta iv)) \<and>
     (top_hp a \<longleftrightarrow> IV.sta iv = max (max (IV.att iv) (IV.dfn iv)) (IV.sta iv))"
  unfolding valid_iv_def Let_def by (auto simp: not_less)

text \<open>
  Claim C1. The appraisal check accepts a candidate exactly when (a) its quality percentage
  lies in the closed interval of the statement's overall band, (b) \<open>top\<close>, the largest of
  its three stats, lies in the closed interval of the statement's dominant-stat band, and
  (c) each of the three flags of the statement is true exactly when its stat equals \<open>top\<close>.
  In particular, when two stats are tied for \<open>top\<close> and the statement flags only one of
  the two, the candidate is rejected.
\<close>

theorem valid_iv_accepts_iff:
  "(valid_iv a iv \<longleftrightarrow>
      (OVERALL_APPRAISAL_MINIMUM_PERCENTS (overall a) \<le> percentage iv \<and>
       percentage iv \<le> OVERALL_APPRAISAL_MAXIMUM_PERCENTS (overall a)) \<and>
      (IV_APPRAISAL_MINIMUM_VALUE (top_iv a) \<le> max (max (IV.att iv) (IV.dfn iv)) (IV.sta iv) \<and>
       max (max (IV.att iv) (IV.dfn iv)) (IV.sta iv) \<le> IV_APPRAISAL_MAXIMUM_VALUE (top_iv a)) \<and>
      (top_att a \<longleftrightarrow> IV.att iv = max (max (IV.att iv) (IV.dfn iv)) (IV.sta iv)) \<and>
      (top_dfn a \<longleftrightarrow> IV.dfn iv = max (max (IV.att iv) (IV.dfn iv)) (IV.sta iv)) \<and>
      (top_hp a \<longleftrightarrow> IV.sta iv = max (max (IV.att iv) (IV.dfn iv)) (IV.sta iv)))
   \<and> ((IV.att iv = max (max (IV.att iv) (IV.dfn iv)) (IV.sta iv) \<and>
        IV.dfn iv = max (max (IV.att iv) (IV.dfn iv)) (IV.sta iv) \<and> top_att a \<noteq> top_dfn a) \<or>
       (IV.att iv = max (max (IV.att iv) (IV.dfn iv)) (IV.sta iv) \<and>
        IV.sta iv = max (max (IV.att iv) (IV.dfn iv)) (IV.sta iv) \<and> top_att a \<noteq> top_hp a) \<or>
       (IV.dfn iv = max (max (IV.att iv) (IV.dfn iv)) (IV.sta iv) \<and>
        IV.sta iv = max (max (IV.att iv) (IV.dfn iv)) (IV.sta iv) \<and> top_dfn a \<noteq> top_hp a)
       \<longrightarrow> \<not> valid_iv a iv)"
proof (rule conjI)
  show "valid_iv a iv \<longleftrightarrow>
      (OVERALL_APPRAISAL_MINIMUM_PERCENTS (overall a) \<le> percentage iv \<and>
       percentage iv \<le> OVERALL_APPRAISAL_MAXIMUM_PERCENTS (overall a)) \<and>
      (IV_APPRAISAL_MINIMUM_VALUE (top_iv a) \<le> max (max (IV.att iv) (IV.dfn iv)) (IV.sta iv) \<and>
       max (max (IV.att iv) (IV.dfn iv)) (IV.sta iv) \<le> IV_APPRAISAL_MAXIMUM_VALUE (top_iv a)) \<and>
      (top_att a \<longleftrightarrow> IV.att iv = max (max (IV.att iv) (IV.dfn iv)) (IV.sta iv)) \<and>
      (top_dfn a \<longleftrightarrow> IV.dfn iv = max (max (IV.att iv) (IV.dfn iv)) (IV.sta iv)) \<and>
      (top_hp a \<longleftrightarrow> IV.sta iv = max (max (IV.att iv) (IV.dfn iv)) (IV.sta iv))"
    by (subst valid_iv_unfold) blast
next
  show "(IV.att iv = max (max (IV.att iv) (IV.dfn iv)) (IV.sta iv) \<and>
        IV.dfn iv = max (max (IV.att iv) (IV.dfn iv)) (IV.sta iv) \<and> top_att a \<noteq> top_dfn a) \<or>
       (IV.att iv = max (max (IV.att iv) (IV.dfn iv)) (IV.sta iv) \<and>
        IV.sta iv = max (max (IV.att iv) (IV.dfn iv)) (IV.sta iv) \<and> top_att a \<noteq> top_hp a) \<or>
       (IV.dfn iv = max (max (IV.att iv) (IV.dfn iv)) (IV.sta iv) \<and>
        IV.sta iv = max (max (IV.att iv) (IV.dfn iv)) (IV.sta iv) \<and> top_dfn a \<noteq> top_hp a)
       \<longrightarrow> \<not> valid_iv a iv"
    by (subst valid_iv_unfold) blast
qed

theorem valid_iv_accepts_iff_witness:
  "\<not> valid_iv (Appraisal wonder True False False exceed)
       \<lparr>att = 15, dfn = 15, sta = 14, level = 76\<rparr> \<and>
   valid_iv (Appraisal wonder True True False exceed)
       \<lparr>att = 15, dfn = 15, sta = 14, level = 76\<rparr>"
  using valid_iv_accepts_iff [of "Appraisal wonder True False False exceed"
          "\<lparr>att = 15, dfn = 15, sta = 14, level = 76\<rparr>"]
        valid_iv_accepts_iff [of "Appraisal wonder True True False exceed"
          "\<lparr>att = 15, dfn = 15, sta = 14, level = 76\<rparr>"]
  by (simp add: percentage_def)

text \<open>
  Claim C10. A statement whose three dominant-stat flags are all false accepts no candidate:
  the largest stat always equals one of the three stats, and that stat is not flagged.
\<close>

theorem valid_iv_no_flag_rejects:
  "\<not> top_att a \<and> \<not> top_dfn a \<and> \<not> top_hp a \<Longrightarrow> \<not> valid_iv a iv"
  by (subst valid_iv_unfold) (auto simp: max_def)

theorem valid_iv_no_flag_rejects_witness:
  "\<not> valid_iv (Appraisal wonder False False False exceed) (perfect_iv 76)"
  using valid_iv_no_flag_rejects [of "Appraisal wonder False False False exceed" "perfect_iv 76"]
  by simp

text \<open>
  Claim C6. \<^verbatim>\<open>appraise(overall, top_hp, top_att, top_dfn, top_iv)\<close> stores a statement whose
  field \<open>top_att\<close> is the argument \<^verbatim>\<open>top_hp\<close>, whose field \<open>top_dfn\<close> is the argument
  \<^verbatim>\<open>top_att\<close> and whose field \<open>top_hp\<close> is the argument \<^verbatim>\<open>top_dfn\<close>. So the check of the stored
  statement compares the flag passed as \<^verbatim>\<open>top_hp\<close> with attack, the one passed as \<^verbatim>\<open>top_att\<close>
  with defense, and the one passed as \<^verbatim>\<open>top_dfn\<close> with stamina.
\<close>

theorem appraise_shifts_flags:
  "\<exists>ap. appraisal (appraise self ov hp_flag att_flag dfn_flag tiv) = Some ap \<and>
     overall ap = ov \<and> top_att ap = hp_flag \<and> top_dfn ap = att_flag \<and>
     top_hp ap = dfn_flag \<and> top_iv ap = tiv \<and>
     (\<forall>iv. valid_iv ap iv \<longrightarrow>
        (hp_flag \<longleftrightarrow> IV.att iv = max (max (IV.att iv) (IV.dfn iv)) (IV.sta iv)) \<and>
        (att_flag \<longleftrightarrow> IV.dfn iv = max (max (IV.att iv) (IV.dfn iv)) (IV.sta iv)) \<and>
        (dfn_flag \<longleftrightarrow> IV.sta iv = max (max (IV.att iv) (IV.dfn iv)) (IV.sta iv)))"
proof -
  let ?ap = "Appraisal ov hp_flag att_flag dfn_flag tiv"
  have stored: "appraisal (appraise self ov hp_flag att_flag dfn_flag tiv) = Some ?ap"
    by (simp add: appraise_def)
  have checks: "\<forall>iv. valid_iv ?ap iv \<longrightarrow>
        (hp_flag \<longleftrightarrow> IV.att iv = max (max (IV.att iv) (IV.dfn iv)) (IV.sta iv)) \<and>
        (att_flag \<longleftrightarrow> IV.dfn iv = max (max (IV.att iv) (IV.dfn iv)) (IV.sta iv)) \<and>
        (dfn_flag \<longleftrightarrow> IV.sta iv = max (max (IV.att iv) (IV.dfn iv)) (IV.sta iv))"
    by (subst valid_iv_unfold) simp
  from stored checks show ?thesis by simp
qed

theorem appraise_shifts_flags_witness:
  "appraisal (appraise (new base_species 100 50 10000 None False) wonder True False False exceed)
     = Some (Appraisal wonder True False False exceed) \<and>
   top_att (Appraisal wonder True False False exceed) \<and>
   \<not> top_hp (Appraisal wonder True False False exceed) \<and>
   valid_iv (Appraisal wonder True False False exceed)
     \<lparr>att = 15, dfn = 14, sta = 14, level = 76\<rparr> \<and>
   \<not> valid_iv (Appraisal wonder True False False exceed)
     \<lparr>att = 14, dfn = 14, sta = 15, level = 76\<rparr>"
proof -
  from appraise_shifts_flags [of "new base_species 100 50 10000 None False" wonder True False
         False exceed]
  obtain ap where ap: "appraisal (appraise (new base_species 100 50 10000 None False) wonder
         True False False exceed) = Some ap"
    and flags: "top_att ap = True" "top_hp ap = False"
    and chk: "\<forall>iv. valid_iv ap iv \<longrightarrow>
        (True \<longleftrightarrow> IV.att iv = max (max (IV.att iv) (IV.dfn iv)) (IV.sta iv)) \<and>
        (False \<longleftrightarrow> IV.dfn iv = max (max (IV.att iv) (IV.dfn iv)) (IV.sta iv)) \<and>
        (False \<longleftrightarrow> IV.sta iv = max (max (IV.att iv) (IV.dfn iv)) (IV.sta iv))"
    by blast
  have ap_eq: "ap = Appraisal wonder True False False exceed"
    using ap by (simp add: appraise_def)
  have rej: "\<not> valid_iv ap \<lparr>att = 14, dfn = 14, sta = 15, level = 76\<rparr>"
    using chk by fastforce
  have acc: "valid_iv (Appraisal wonder True False False exceed)
     \<lparr>att = 15, dfn = 14, sta = 14, level = 76\<rparr>"
    by (simp add: valid_iv_def percentage_def)
  from ap flags rej acc show ?thesis unfolding ap_eq by simp
qed

section \<open>Forward simulation and the observation filter\<close>

text \<open>
  Claim C2, as amended. The formulas are evaluated in double-precision float arithmetic:
  every square root, product and quotient is rounded to the nearest double, from left to
  right. For a species and a candidate whose three stat sums are below \<open>2 ^ 53\<close> and whose
  multiplier is at most \<open>2 ^ 53\<close> in magnitude, the simulated CP is the floor of
  \<open>(base_att + iv_att) * sqrt (base_dfn + iv_dfn) * sqrt (base_sta + iv_sta) * multiplier / 10\<close>
  so evaluated, raised to at least 10. For a multiplier from 0 to \<open>2 ^ 53\<close> the simulated HP
  is the floor of \<open>(base_sta + iv_sta) * sqrt multiplier\<close> so evaluated, raised to at least
  10, and the observation filter returns the candidates both of whose simulated values
  equal the observed ones, and no others. The source truncates with \<^verbatim>\<open>int\<close>, which differs
  from the floor only on negative numbers, where both results are below 10.
\<close>

theorem forward_simulation:
  "(Species.att sp + IV.att iv < 2 ^ 53 \<and> Species.dfn sp + IV.dfn iv < 2 ^ 53 \<and>
    Species.sta sp + IV.sta iv < 2 ^ 53 \<and> \<bar>cp_scalar gd iv\<bar> \<le> 2 ^ 53 \<longrightarrow>
      calc_cp gd sp iv =
        Inr (max \<lfloor>round_double (round_double (round_double (round_double
                    (real (Species.att sp + IV.att iv) *
                     round_double (sqrt (real (Species.dfn sp + IV.dfn iv)))) *
                     round_double (sqrt (real (Species.sta sp + IV.sta iv)))) *
                     cp_scalar gd iv) / 10)\<rfloor> 10)) \<and>
   (Species.sta sp + IV.sta iv < 2 ^ 53 \<and> 0 \<le> cp_scalar gd iv \<and> cp_scalar gd iv \<le> 2 ^ 53 \<longrightarrow>
      calc_hp gd sp iv =
        Inr (max \<lfloor>round_double (real (Species.sta sp + IV.sta iv) *
                                 round_double (sqrt (cp_scalar gd iv)))\<rfloor> 10)) \<and>
   ((\<forall>c\<in>ivs. Species.att sp + IV.att c < 2 ^ 53 \<and> Species.dfn sp + IV.dfn c < 2 ^ 53 \<and>
              Species.sta sp + IV.sta c < 2 ^ 53 \<and>
              0 \<le> cp_scalar gd c \<and> cp_scalar gd c \<le> 2 ^ 53) \<longrightarrow>
      filter_obs gd (Some sp) snapshot ivs =
        Inr {c \<in> ivs. calc_cp gd sp c = Inr (cp snapshot) \<and>
                       calc_hp gd sp c = Inr (hp snapshot)})"
proof (intro conjI impI)
  assume "Species.att sp + IV.att iv < 2 ^ 53 \<and> Species.dfn sp + IV.dfn iv < 2 ^ 53 \<and>
    Species.sta sp + IV.sta iv < 2 ^ 53 \<and> \<bar>cp_scalar gd iv\<bar> \<le> 2 ^ 53"
  then show "calc_cp gd sp iv =
        Inr (max \<lfloor>round_double (round_double (round_double (round_double
                    (real (Species.att sp + IV.att iv) *
                     round_double (sqrt (real (Species.dfn sp + IV.dfn iv)))) *
                     round_double (sqrt (real (Species.sta sp + IV.sta iv)))) *
                     cp_scalar gd iv) / 10)\<rfloor> 10)"
    by (simp only: calc_cp_bounded py_int_max fdiv_def)
next
  assume "Species.sta sp + IV.sta iv < 2 ^ 53 \<and> 0 \<le> cp_scalar gd iv \<and> cp_scalar gd iv \<le> 2 ^ 53"
  then show "calc_hp gd sp iv =
        Inr (max \<lfloor>round_double (real (Species.sta sp + IV.sta iv) *
                                 round_double (sqrt (cp_scalar gd iv)))\<rfloor> 10)"
    by (simp only: calc_hp_bounded)
next
  assume b: "\<forall>c\<in>ivs. Species.att sp + IV.att c < 2 ^ 53 \<and> Species.dfn sp + IV.dfn c < 2 ^ 53 \<and>
              Species.sta sp + IV.sta c < 2 ^ 53 \<and>
              0 \<le> cp_scalar gd c \<and> cp_scalar gd c \<le> 2 ^ 53"
  have "\<forall>c\<in>ivs. \<not> isl (calc_cp gd sp c) \<and> \<not> isl (calc_hp gd sp c)"
  proof
    fix c assume "c \<in> ivs"
    with b have c: "Species.att sp + IV.att c < 2 ^ 53" "Species.dfn sp + IV.dfn c < 2 ^ 53"
      "Species.sta sp + IV.sta c < 2 ^ 53" "0 \<le> cp_scalar gd c" "cp_scalar gd c \<le> 2 ^ 53"
      by simp_all
    then have "\<bar>cp_scalar gd c\<bar> \<le> 2 ^ 53" by simp
    from calc_cp_bounded [OF c(1-3) this] calc_hp_bounded [OF c(3-5)]
    show "\<not> isl (calc_cp gd sp c) \<and> \<not> isl (calc_hp gd sp c)" by simp
  qed
  then show "filter_obs gd (Some sp) snapshot ivs =
        Inr {c \<in> ivs. calc_cp gd sp c = Inr (cp snapshot) \<and>
                       calc_hp gd sp c = Inr (hp snapshot)}"
    by (auto simp: filter_obs_def)
qed

theorem forward_simulation_witness:
  "calc_cp example_data base_species (perfect_iv 76) = Inr 100 \<and>
   calc_hp example_data base_species (perfect_iv 76) = Inr 50 \<and>
   calc_cp example_data base_species \<lparr>att = 14, dfn = 15, sta = 15, level = 76\<rparr> \<noteq> Inr 100 \<and>
   filter_obs example_data (Some base_species) (StartSnapshot base_species 100 50 10000 False)
     {perfect_iv 76, \<lparr>att = 14, dfn = 15, sta = 15, level = 76\<rparr>} = Inr {perfect_iv 76}"
proof -
  let ?other = "\<lparr>att = 14, dfn = 15, sta = 15, level = 76\<rparr>"
  have b: "\<forall>c\<in>{perfect_iv 76, ?other}.
      Species.att base_species + IV.att c < 2 ^ 53 \<and>
      Species.dfn base_species + IV.dfn c < 2 ^ 53 \<and>
      Species.sta base_species + IV.sta c < 2 ^ 53 \<and>
      0 \<le> cp_scalar example_data c \<and> cp_scalar example_data c \<le> 2 ^ 53"
    by (simp add: cp_scalar_example base_species_def perfect_iv_def)
  have o: "calc_cp example_data base_species ?other \<noteq> Inr 100"
    using cp_base_below [of ?other] by auto
  have "{c \<in> {perfect_iv 76, ?other}.
          calc_cp example_data base_species c = Inr 100 \<and>
          calc_hp example_data base_species c = Inr 50} = {perfect_iv 76}"
    using o by (auto simp: cp_base_perfect hp_base_perfect)
  with forward_simulation [of base_species "perfect_iv 76" example_data
      "{perfect_iv 76, ?other}" "StartSnapshot base_species 100 50 10000 False"] b o
  show ?thesis
    by (simp add: cp_base_perfect hp_base_perfect)
qed

text \<open>
  The claim as first stated, with the formula evaluated exactly, fails for the species with
  base stats 25, 85, 85 and the candidate 15, 0, 0 at the multiplier 1/4. The square root
  of 85 is rounded down to a double; the rounded products stay below 3400, so that the
  quotient by 10 is the double just below 85 and \<^verbatim>\<open>int\<close> returns 84, where the exact
  formula gives 85.
\<close>

theorem forward_simulation_counterexample:
  "calc_cp example_data base_species \<lparr>att = 15, dfn = 0, sta = 0, level = 76\<rparr> = Inr 84 \<and>
   max \<lfloor>real (Species.att base_species + 15) * sqrt (real (Species.dfn base_species + 0)) *
        sqrt (real (Species.sta base_species + 0)) *
        cp_scalar example_data \<lparr>att = 15, dfn = 0, sta = 0, level = 76\<rparr> / 10\<rfloor> 10 = 85"
proof -
  have "(40::real) * sqrt 85 * sqrt 85 = 40 * 85" by (simp add: mult.assoc)
  then have "\<lfloor>(40::real) * sqrt 85 * sqrt 85 * (1 / 4) / 10\<rfloor> = 85" by simp
  then have "max \<lfloor>real (Species.att base_species + 15) *
        sqrt (real (Species.dfn base_species + 0)) *
        sqrt (real (Species.sta base_species + 0)) *
        cp_scalar example_data \<lparr>att = 15, dfn = 0, sta = 0, level = 76\<rparr> / 10\<rfloor> 10 = 85"
    by (simp add: base_species_def cp_scalar_example)
  with cp_rounds_down show ?thesis by simp
qed

section \<open>History reduction\<close>

text \<open>
  Claim C9. \<^verbatim>\<open>calc_ivs\<close> binds its working variables only at a \<^verbatim>\<open>StartSnapshot\<close>. When the
  first snapshot is a \<^verbatim>\<open>StartSnapshot\<close>, both variables are bound before every use: the
  function never fails with an unbound-variable error. When the list of snapshots is empty,
  or its first element is a \<^verbatim>\<open>PowerUpSnapshot\<close> or an \<^verbatim>\<open>EvolutionSnapshot\<close>, it fails with
  that error and returns no candidate set.
\<close>

theorem calc_ivs_unbound_iff:
  "(is_StartSnapshot x \<longrightarrow>
      calc_ivs gd \<lparr>snapshots = x # rest, appraisal = a, nickname = nm\<rparr> \<noteq> Inl UnboundLocalError) \<and>
   (\<not> is_StartSnapshot x \<longrightarrow>
      calc_ivs gd \<lparr>snapshots = x # rest, appraisal = a, nickname = nm\<rparr> = Inl UnboundLocalError) \<and>
   calc_ivs gd \<lparr>snapshots = [], appraisal = a, nickname = nm\<rparr> = Inl UnboundLocalError"
proof (intro conjI impI)
  assume s: "is_StartSnapshot x"
  from calc_loop_start_bound [OF s, of gd unbound rest]
  show "calc_ivs gd \<lparr>snapshots = x # rest, appraisal = a, nickname = nm\<rparr> \<noteq> Inl UnboundLocalError"
    by (cases "calc_loop gd unbound (x # rest)")
       (auto simp: calc_ivs_def bound_def split: option.splits)
next
  assume "\<not> is_StartSnapshot x"
  then have "next_candidates gd unbound x = Inl UnboundLocalError"
    by (intro next_candidates_unbound) (simp_all add: unbound_def)
  then have "calc_step gd unbound x = Inl UnboundLocalError"
    by (simp add: calc_step_def Let_def)
  then show "calc_ivs gd \<lparr>snapshots = x # rest, appraisal = a, nickname = nm\<rparr>
      = Inl UnboundLocalError"
    by (simp add: calc_ivs_def)
next
  show "calc_ivs gd \<lparr>snapshots = [], appraisal = a, nickname = nm\<rparr> = Inl UnboundLocalError"
    by (simp add: calc_ivs_def unbound_def)
qed

theorem calc_ivs_unbound_iff_witness:
  "is_StartSnapshot (StartSnapshot base_species 100 50 10000 False) \<and>
   calc_ivs example_data
     \<lparr>snapshots = [StartSnapshot base_species 100 50 10000 False,
                   PowerUpSnapshot 100 50 10000 1],
      appraisal = None, nickname = None\<rparr> \<noteq> Inl UnboundLocalError \<and>
   \<not> is_StartSnapshot (PowerUpSnapshot 100 50 10000 1) \<and>
   calc_ivs example_data
     \<lparr>snapshots = [PowerUpSnapshot 100 50 10000 1,
                   StartSnapshot base_species 100 50 10000 False],
      appraisal = None, nickname = None\<rparr> = Inl UnboundLocalError \<and>
   \<not> is_StartSnapshot (EvolutionSnapshot evolved_species 180 50 10000 0) \<and>
   calc_ivs example_data
     \<lparr>snapshots = [EvolutionSnapshot evolved_species 180 50 10000 0],
      appraisal = None, nickname = None\<rparr> = Inl UnboundLocalError \<and>
   calc_ivs example_data \<lparr>snapshots = [], appraisal = None, nickname = None\<rparr>
     = Inl UnboundLocalError"
  using calc_ivs_unbound_iff [of "StartSnapshot base_species 100 50 10000 False" example_data
          "[PowerUpSnapshot 100 50 10000 1]" None None]
        calc_ivs_unbound_iff [of "PowerUpSnapshot 100 50 10000 1" example_data
          "[StartSnapshot base_species 100 50 10000 False]" None None]
        calc_ivs_unbound_iff [of "EvolutionSnapshot evolved_species 180 50 10000 0" example_data
          "[]" None None]
  by simp

text \<open>
  Claim C5. The species is sticky. Let \<open>sp\<close> be the most recently established species at an
  event \<open>e\<close>: the species of \<open>e\<close> itself, or, when \<open>e\<close> carries none, the species of the
  last earlier event that carries one. Then the candidates at \<open>e\<close> are filtered by the CP
  and HP simulated from the base stats of \<open>sp\<close>. So an event without a species is filtered
  against the most recent species, and after an evolution the following events are
  simulated against the new species. That species is also what the property
  \<^verbatim>\<open>Pokemon.species\<close> returns for the timeline up to \<open>e\<close>.
\<close>

theorem sticky_species:
  assumes loop: "calc_loop gd unbound pre = Inr st"
    and cands: "next_candidates gd st e = Inr ivs"
    and recent: "snapshot_species e = Some sp \<or>
       (snapshot_species e = None \<and>
        (\<exists>pre0 ev mid. pre = pre0 @ [ev] @ mid \<and> snapshot_species ev = Some sp \<and>
                        (\<forall>x\<in>set mid. snapshot_species x = None)))"
  shows "calc_step gd st e =
           (case filter_obs gd (Some sp) e ivs of
              Inl err \<Rightarrow> Inl err
            | Inr kept \<Rightarrow> Inr \<lparr>species_var = Some sp, possible_ivs_var = Some kept\<rparr>) \<and>
         (\<forall>kept. filter_obs gd (Some sp) e ivs = Inr kept \<longrightarrow>
            kept = {iv \<in> ivs. calc_cp gd sp iv = Inr (cp e) \<and> calc_hp gd sp iv = Inr (hp e)}) \<and>
         species \<lparr>snapshots = pre @ [e], appraisal = a, nickname = nm\<rparr> = Some sp"
proof -
  have ns: "next_species st e = Some sp"
  proof (cases "snapshot_species e")
    case (Some s)
    with recent show ?thesis by (simp add: next_species_def)
  next
    case None
    with recent obtain pre0 ev mid where pre: "pre = pre0 @ [ev] @ mid"
      and ev: "snapshot_species ev = Some sp"
      and mid: "\<forall>x\<in>set mid. snapshot_species x = None" by auto
    from loop obtain st0 st1 where "calc_loop gd unbound pre0 = Inr st0"
      and s: "calc_step gd st0 ev = Inr st1" and l: "calc_loop gd st1 mid = Inr st"
      unfolding pre by (auto simp: calc_loop_append split: sum.splits)
    from calc_step_Inr [OF s] ev have "species_var st1 = Some sp"
      by (auto simp: next_species_def)
    with calc_loop_keeps_species [OF l mid] have "species_var st = Some sp" by simp
    with None show ?thesis by (simp add: next_species_def)
  qed
  have step: "calc_step gd st e =
           (case filter_obs gd (Some sp) e ivs of
              Inl err \<Rightarrow> Inl err
            | Inr kept \<Rightarrow> Inr \<lparr>species_var = Some sp, possible_ivs_var = Some kept\<rparr>)"
    by (simp add: calc_step_def Let_def ns cands)
  have flt: "\<forall>kept. filter_obs gd (Some sp) e ivs = Inr kept \<longrightarrow>
            kept = {iv \<in> ivs. calc_cp gd sp iv = Inr (cp e) \<and> calc_hp gd sp iv = Inr (hp e)}"
    using filter_obs_Inr by blast
  have last_sp: "first_species (rev (pre @ [e])) = Some sp"
  proof (cases "snapshot_species e")
    case (Some s)
    with recent show ?thesis by simp
  next
    case None
    with recent obtain pre0 ev mid where pre: "pre = pre0 @ [ev] @ mid"
      and ev: "snapshot_species ev = Some sp"
      and mid: "\<forall>x\<in>set mid. snapshot_species x = None" by auto
    from mid have "first_species (rev mid) = None" by (intro first_species_none) simp
    with None ev show ?thesis by (simp add: pre first_species_append)
  qed
  from step flt last_sp show ?thesis by (simp add: species_def)
qed

theorem sticky_species_witness:
  "calc_loop example_data unbound
     ([StartSnapshot base_species 100 50 10000 False] @
      [EvolutionSnapshot evolved_species 180 50 10000 0] @ [PowerUpSnapshot 180 50 10000 0]) =
     Inr \<lparr>species_var = Some evolved_species,
          possible_ivs_var = Some {perfect_iv 76, perfect_iv 78}\<rparr> \<and>
   next_candidates example_data
     \<lparr>species_var = Some evolved_species, possible_ivs_var = Some {perfect_iv 76, perfect_iv 78}\<rparr>
     (PowerUpSnapshot 180 50 10000 1) = Inr {perfect_iv 77, perfect_iv 79} \<and>
   calc_step example_data
     \<lparr>species_var = Some evolved_species, possible_ivs_var = Some {perfect_iv 76, perfect_iv 78}\<rparr>
     (PowerUpSnapshot 180 50 10000 1) =
     Inr \<lparr>species_var = Some evolved_species,
          possible_ivs_var = Some {perfect_iv 77, perfect_iv 79}\<rparr> \<and>
   {perfect_iv 77, perfect_iv 79} =
     {iv \<in> {perfect_iv 77, perfect_iv 79}.
        calc_cp example_data evolved_species iv = Inr 180 \<and>
        calc_hp example_data evolved_species iv = Inr 50} \<and>
   species
     \<lparr>snapshots =
        ([StartSnapshot base_species 100 50 10000 False] @
         [EvolutionSnapshot evolved_species 180 50 10000 0] @ [PowerUpSnapshot 180 50 10000 0]) @
        [PowerUpSnapshot 180 50 10000 1],
      appraisal = None, nickname = None\<rparr> = Some evolved_species \<and>
   calc_cp example_data base_species (perfect_iv 77) \<noteq> Inr 180"
proof -
  let ?st = "\<lparr>species_var = Some evolved_species,
              possible_ivs_var = Some {perfect_iv 76, perfect_iv 78}\<rparr>"
  let ?pre = "[StartSnapshot base_species 100 50 10000 False] @
      [EvolutionSnapshot evolved_species 180 50 10000 0] @ [PowerUpSnapshot 180 50 10000 0]"
  have ev: "calc_loop example_data unbound
     [StartSnapshot base_species 100 50 10000 False,
      EvolutionSnapshot evolved_species 180 50 10000 0] = Inr ?st"
    by (rule loop_start_evolve)
  have pu: "calc_step example_data ?st (PowerUpSnapshot 180 50 10000 0) = Inr ?st"
    using step_power_up_evolved [of "{76, 78}" 0 180 50 10000] by simp
  have loop: "calc_loop example_data unbound ?pre = Inr ?st"
    using ev pu by (simp add: calc_loop_append [of _ _ "[_, _]" "[_]", simplified])
  have adv: "advance_all example_data 1 (perfect_iv ` {76, 78}) =
      Inr (perfect_iv ` (\<lambda>l. l + 1) ` {76, 78})"
    by (rule advance_perfect) simp
  have cands: "next_candidates example_data ?st (PowerUpSnapshot 180 50 10000 1) =
      Inr {perfect_iv 77, perfect_iv 79}"
    using adv by simp
  have recent: "snapshot_species (PowerUpSnapshot 180 50 10000 1) = Some evolved_species \<or>
       (snapshot_species (PowerUpSnapshot 180 50 10000 1) = None \<and>
        (\<exists>pre0 ev mid. ?pre = pre0 @ [ev] @ mid \<and> snapshot_species ev = Some evolved_species \<and>
                        (\<forall>x\<in>set mid. snapshot_species x = None)))"
    by (intro disjI2 conjI exI [of _ "[StartSnapshot base_species 100 50 10000 False]"]
          exI [of _ "EvolutionSnapshot evolved_species 180 50 10000 0"]
          exI [of _ "[PowerUpSnapshot 180 50 10000 0]"]) simp_all
  have flt: "filter_obs example_data (Some evolved_species) (PowerUpSnapshot 180 50 10000 1)
      {perfect_iv 77, perfect_iv 79} = Inr {perfect_iv 77, perfect_iv 79}"
    using filter_evolved_perfect [of "PowerUpSnapshot 180 50 10000 1" "{77, 79}"] by simp
  from sticky_species [OF loop cands recent, of None None] flt
  have "calc_step example_data ?st (PowerUpSnapshot 180 50 10000 1) =
      Inr \<lparr>species_var = Some evolved_species,
           possible_ivs_var = Some {perfect_iv 77, perfect_iv 79}\<rparr>"
    and "{perfect_iv 77, perfect_iv 79} =
     {iv \<in> {perfect_iv 77, perfect_iv 79}.
        calc_cp example_data evolved_species iv = Inr (cp (PowerUpSnapshot 180 50 10000 1)) \<and>
        calc_hp example_data evolved_species iv = Inr (hp (PowerUpSnapshot 180 50 10000 1))}"
    and "species \<lparr>snapshots = ?pre @ [PowerUpSnapshot 180 50 10000 1],
      appraisal = None, nickname = None\<rparr> = Some evolved_species"
    by simp_all
  with loop cands show ?thesis by (simp add: cp_base_perfect)
qed

text \<open>
  Claim C3, as amended. \<^verbatim>\<open>calc_ivs\<close> has no handler around the comprehension that advances
  the candidates. When, at a \<^verbatim>\<open>PowerUpSnapshot\<close> or an \<^verbatim>\<open>EvolutionSnapshot\<close>, advancing the level
  of any one candidate by the event's growth steps fails with the out-of-range error, the
  whole inference fails with that error, whatever the other candidates, the later events
  and the appraisal are: no candidate is dropped and no candidate set is returned.
\<close>

theorem level_overflow_aborts:
  assumes "calc_loop gd unbound pre = Inr st" and "possible_ivs_var st = Some ivs"
    and "e = PowerUpSnapshot c h d n \<or> e = EvolutionSnapshot sp c h d n"
    and "\<exists>iv\<in>ivs. increment_level gd n iv = Inl LevelOutOfRange"
  shows "calc_ivs gd \<lparr>snapshots = pre @ e # rest, appraisal = a, nickname = nm\<rparr>
           = Inl LevelOutOfRange"
proof -
  from assms(4) have "\<exists>iv\<in>ivs. isl (increment_level gd n iv)"
    by (metis sum.disc(1))
  then have "advance_all gd n ivs = Inl LevelOutOfRange"
    by (simp add: advance_all_def)
  with assms(2,3) have "next_candidates gd st e = Inl LevelOutOfRange" by auto
  then have "calc_step gd st e = Inl LevelOutOfRange"
    by (simp add: calc_step_def Let_def)
  then have "calc_loop gd unbound (pre @ e # rest) = Inl LevelOutOfRange"
    using assms(1) by (simp add: calc_loop_append)
  then show ?thesis by (simp add: calc_ivs_def)
qed

theorem level_overflow_aborts_witness:
  "calc_loop example_data unbound [StartSnapshot base_species 100 50 10000 False] =
     Inr \<lparr>species_var = Some base_species,
          possible_ivs_var = Some {perfect_iv 76, perfect_iv 78}\<rparr> \<and>
   perfect_iv 78 \<in> {perfect_iv 76, perfect_iv 78} \<and>
   increment_level example_data 2 (perfect_iv 78) = Inl LevelOutOfRange \<and>
   calc_ivs example_data
     \<lparr>snapshots = [StartSnapshot base_species 100 50 10000 False] @
                  EvolutionSnapshot evolved_species 180 50 10000 2 #
                  [PowerUpSnapshot 180 50 10000 0],
      appraisal = None, nickname = None\<rparr> = Inl LevelOutOfRange"
proof -
  have inc: "increment_level example_data 2 (perfect_iv 78) = Inl LevelOutOfRange"
    by (simp add: increment_perfect)
  then have ex: "\<exists>iv\<in>{perfect_iv 76, perfect_iv 78}.
      increment_level example_data 2 iv = Inl LevelOutOfRange" by simp
  from level_overflow_aborts [OF loop_start_base _ _ ex,
      of "EvolutionSnapshot evolved_species 180 50 10000 2" 180 50 10000 evolved_species 10000
         "[PowerUpSnapshot 180 50 10000 0]" None None] inc loop_start_base [of 10000]
  show ?thesis by simp
qed

text \<open>
  The claim as first stated fails on the worked history: after the capture the candidates
  are the perfect triple at the level indices 76 and 78; two growth steps take the first
  to 78, where it still matches the observation, and the second past the maximum 79.
  The inference does not continue with the first candidate: it fails.
\<close>

theorem level_overflow_aborts_counterexample:
  "calc_ivs example_data
     \<lparr>snapshots = [StartSnapshot base_species 100 50 10000 False],
      appraisal = None, nickname = None\<rparr> = Inr {perfect_iv 76, perfect_iv 78} \<and>
   increment_level example_data 2 (perfect_iv 76) = Inr (perfect_iv 78) \<and>
   increment_level example_data 2 (perfect_iv 78) = Inl LevelOutOfRange \<and>
   calc_cp example_data base_species (perfect_iv 78) = Inr 100 \<and>
   calc_hp example_data base_species (perfect_iv 78) = Inr 50 \<and>
   calc_ivs example_data
     \<lparr>snapshots = [StartSnapshot base_species 100 50 10000 False,
                   PowerUpSnapshot 100 50 10000 2],
      appraisal = None, nickname = None\<rparr> = Inl LevelOutOfRange"
proof -
  have "advance_all example_data 2 {perfect_iv 76, perfect_iv 78} = Inl LevelOutOfRange"
    by (rule advance_all_overflow) (simp add: example_data_def perfect_iv_def)
  then have "calc_step example_data
      \<lparr>species_var = Some base_species, possible_ivs_var = Some {perfect_iv 76, perfect_iv 78}\<rparr>
      (PowerUpSnapshot 100 50 10000 2) = Inl LevelOutOfRange"
    by (simp add: calc_step_def)
  then show ?thesis
    by (simp add: calc_ivs_def step_start_base example_levels increment_perfect
          cp_base_perfect hp_base_perfect)
qed

text \<open>
  Claim C4, as amended. When the candidate set is empty after the full reduction (all
  events and any attached appraisal processed), \<^verbatim>\<open>calc_ivs\<close> returns the empty set as its
  ordinary result; the code has no separate result for an inconsistent history. The
  emptiness becomes an error only when the quality range of the record is requested.
\<close>

theorem empty_candidates_returned:
  assumes "calc_loop gd unbound (snapshots p) = Inr st" and "possible_ivs_var st = Some ivs"
    and "(case appraisal p of None \<Rightarrow> ivs | Some a \<Rightarrow> {iv \<in> ivs. valid_iv a iv}) = {}"
  shows "calc_ivs gd p = Inr {} \<and> percentage_range gd p = Inl ValueError_empty_sequence"
proof -
  from calc_ivs_after_loop [OF assms(1,2)] assms(3) have "calc_ivs gd p = Inr {}" by simp
  then show ?thesis by (simp add: percentage_range_empty)
qed

theorem empty_candidates_returned_witness:
  "calc_loop example_data unbound
     [StartSnapshot base_species 100 50 10000 False, PowerUpSnapshot 101 50 10000 1] =
     Inr \<lparr>species_var = Some base_species, possible_ivs_var = Some {}\<rparr> \<and>
   calc_ivs example_data
     \<lparr>snapshots = [StartSnapshot base_species 100 50 10000 False,
                   PowerUpSnapshot 101 50 10000 1],
      appraisal = None, nickname = None\<rparr> = Inr {} \<and>
   percentage_range example_data
     \<lparr>snapshots = [StartSnapshot base_species 100 50 10000 False,
                   PowerUpSnapshot 101 50 10000 1],
      appraisal = None, nickname = None\<rparr> = Inl ValueError_empty_sequence"
proof -
  let ?p = "\<lparr>snapshots = [StartSnapshot base_species 100 50 10000 False,
                   PowerUpSnapshot 101 50 10000 1],
      appraisal = None, nickname = None\<rparr>"
  have "calc_step example_data
      \<lparr>species_var = Some base_species, possible_ivs_var = Some {perfect_iv 76, perfect_iv 78}\<rparr>
      (PowerUpSnapshot 101 50 10000 1) =
      Inr \<lparr>species_var = Some base_species, possible_ivs_var = Some {}\<rparr>"
    using step_power_up_base [of "{76, 78}" 1 101 50 10000] by simp
  then have loop: "calc_loop example_data unbound (snapshots ?p) =
      Inr \<lparr>species_var = Some base_species, possible_ivs_var = Some {}\<rparr>"
    by (simp add: step_start_base example_levels)
  from empty_candidates_returned [OF loop, of "{}"] loop show ?thesis by simp
qed

text \<open>
  The claim as first stated fails on a capture whose only candidates are perfect, with an
  appraisal of the lowest overall band: the result is the empty set itself.
\<close>

theorem empty_candidates_returned_counterexample:
  "calc_ivs example_data
     \<lparr>snapshots = [StartSnapshot base_species 100 50 10000 False],
      appraisal = Some (Appraisal likely True False False exceed), nickname = None\<rparr> = Inr {}"
  by (rule calc_ivs_contradicting_appraisal)

text \<open>
  Claim C7, as amended. The candidate set never grows across an event other than a
  \<^verbatim>\<open>StartSnapshot\<close>, nor across the appraisal filter: its size after the step is at most its
  size before. (A \<^verbatim>\<open>StartSnapshot\<close> replaces the set by the initial candidates of its own
  dust cost, filtered by its observation.)
\<close>

theorem candidates_never_grow:
  "(calc_loop gd unbound pre = Inr st \<and> possible_ivs_var st = Some ivs \<and>
    \<not> is_StartSnapshot e \<and> calc_step gd st e = Inr st' \<longrightarrow>
      finite ivs \<and> (\<exists>ivs'. possible_ivs_var st' = Some ivs' \<and> card ivs' \<le> card ivs)) \<and>
   (calc_loop gd unbound (snapshots p) = Inr final \<and> possible_ivs_var final = Some last_ivs \<and>
    calc_ivs gd p = Inr result \<longrightarrow>
      finite last_ivs \<and> card result \<le> card last_ivs)"
proof (rule conjI; rule impI)
  assume h: "calc_loop gd unbound pre = Inr st \<and> possible_ivs_var st = Some ivs \<and>
    \<not> is_StartSnapshot e \<and> calc_step gd st e = Inr st'"
  then have fin: "finite ivs" using calc_loop_finite by blast
  from h calc_step_Inr obtain cands kept where
    c: "next_candidates gd st e = Inr cands" and
    f: "filter_obs gd (next_species st e) e cands = Inr kept" and
    st': "st' = \<lparr>species_var = next_species st e, possible_ivs_var = Some kept\<rparr>"
    by blast
  have cc: "finite cands \<and> card cands \<le> card ivs"
    using next_candidates_card [of st ivs e gd cands] h fin c by simp
  from filter_obs_subset [OF f] cc have "card kept \<le> card cands"
    by (simp add: card_mono)
  with cc have "card kept \<le> card ivs" by simp
  with fin st' show "finite ivs \<and> (\<exists>ivs'. possible_ivs_var st' = Some ivs' \<and> card ivs' \<le> card ivs)"
    by simp
next
  assume h: "calc_loop gd unbound (snapshots p) = Inr final \<and>
    possible_ivs_var final = Some last_ivs \<and> calc_ivs gd p = Inr result"
  then have fin: "finite last_ivs" using calc_loop_finite by blast
  from h have "result \<subseteq> last_ivs"
    by (auto simp: calc_ivs_def split: option.splits)
  with fin show "finite last_ivs \<and> card result \<le> card last_ivs"
    by (simp add: card_mono)
qed

theorem candidates_never_grow_witness:
  "calc_loop example_data unbound [StartSnapshot base_species 100 50 10000 True] =
     Inr \<lparr>species_var = Some base_species,
          possible_ivs_var = Some {perfect_iv 76, perfect_iv 77, perfect_iv 78}\<rparr> \<and>
   \<not> is_StartSnapshot (PowerUpSnapshot 100 50 10000 1) \<and>
   calc_step example_data
     \<lparr>species_var = Some base_species,
      possible_ivs_var = Some {perfect_iv 76, perfect_iv 77, perfect_iv 78}\<rparr>
     (PowerUpSnapshot 100 50 10000 1) =
     Inr \<lparr>species_var = Some base_species,
          possible_ivs_var = Some {perfect_iv 77, perfect_iv 78, perfect_iv 79}\<rparr> \<and>
   card {perfect_iv 77, perfect_iv 78, perfect_iv 79}
     \<le> card {perfect_iv 76, perfect_iv 77, perfect_iv 78} \<and>
   calc_ivs example_data
     \<lparr>snapshots = [StartSnapshot base_species 100 50 10000 True],
      appraisal = Some (Appraisal likely True False False exceed), nickname = None\<rparr> = Inr {} \<and>
   card ({} :: IV set) \<le> card {perfect_iv 76, perfect_iv 77, perfect_iv 78}"
proof -
  let ?st = "\<lparr>species_var = Some base_species,
      possible_ivs_var = Some {perfect_iv 76, perfect_iv 77, perfect_iv 78}\<rparr>"
  let ?st' = "\<lparr>species_var = Some base_species,
      possible_ivs_var = Some {perfect_iv 77, perfect_iv 78, perfect_iv 79}\<rparr>"
  let ?p = "\<lparr>snapshots = [StartSnapshot base_species 100 50 10000 True],
      appraisal = Some (Appraisal likely True False False exceed), nickname = None\<rparr>"
  have loop: "calc_loop example_data unbound [StartSnapshot base_species 100 50 10000 True]
      = Inr ?st"
    by (simp add: step_start_base example_levels)
  have step: "calc_step example_data ?st (PowerUpSnapshot 100 50 10000 1) = Inr ?st'"
    using step_power_up_base [of "{76, 77, 78}" 1 100 50 10000] by simp
  have res: "calc_ivs example_data ?p = Inr {}"
    by (rule calc_ivs_contradicting_appraisal)
  from candidates_never_grow [of example_data
      "[StartSnapshot base_species 100 50 10000 True]" ?st
      "{perfect_iv 76, perfect_iv 77, perfect_iv 78}" "PowerUpSnapshot 100 50 10000 1" ?st'
      ?p ?st "{perfect_iv 76, perfect_iv 77, perfect_iv 78}" "{}"] loop step res
  show ?thesis by simp
qed

text \<open>
  The claim as first stated, for every event of every timeline, fails on a timeline with a
  second \<^verbatim>\<open>StartSnapshot\<close>: the first capture leaves two candidates, the second one, with
  half levels enabled, three.
\<close>

theorem candidates_never_grow_counterexample:
  "calc_ivs example_data
     \<lparr>snapshots = [StartSnapshot base_species 100 50 10000 False],
      appraisal = None, nickname = None\<rparr> = Inr {perfect_iv 76, perfect_iv 78} \<and>
   calc_ivs example_data
     \<lparr>snapshots = [StartSnapshot base_species 100 50 10000 False,
                   StartSnapshot base_species 100 50 10000 True],
      appraisal = None, nickname = None\<rparr> = Inr {perfect_iv 76, perfect_iv 77, perfect_iv 78} \<and>
   card {perfect_iv 76, perfect_iv 78} < card {perfect_iv 76, perfect_iv 77, perfect_iv 78}"
  by (simp add: calc_ivs_def step_start_base example_levels)

section \<open>The quality range\<close>

text \<open>
  Claim C8. When the final candidate set is empty, \<^verbatim>\<open>percentage_range\<close> fails with the
  error of \<^verbatim>\<open>min\<close> on an empty sequence and returns no pair. When the set is not empty it
  returns the minimum and the maximum of the quality percentages over the set: both are
  the percentage of some candidate, and every candidate's percentage lies between them.
\<close>

theorem percentage_range_spec:
  assumes "calc_ivs gd p = Inr ivs"
  shows "(ivs = {} \<longrightarrow> percentage_range gd p = Inl ValueError_empty_sequence) \<and>
         (ivs \<noteq> {} \<longrightarrow>
            percentage_range gd p = Inr (Min (percentage ` ivs), Max (percentage ` ivs)) \<and>
            (\<exists>iv\<in>ivs. percentage iv = Min (percentage ` ivs)) \<and>
            (\<exists>iv\<in>ivs. percentage iv = Max (percentage ` ivs)) \<and>
            (\<forall>iv\<in>ivs. Min (percentage ` ivs) \<le> percentage iv \<and>
                       percentage iv \<le> Max (percentage ` ivs)))"
proof (rule conjI; rule impI)
  assume "ivs = {}"
  with assms show "percentage_range gd p = Inl ValueError_empty_sequence"
    by (simp add: percentage_range_empty)
next
  assume ne: "ivs \<noteq> {}"
  have fin: "finite (percentage ` ivs)" using calc_ivs_finite [OF assms] by simp
  from ne have ne': "percentage ` ivs \<noteq> {}" by simp
  have "Min (percentage ` ivs) \<in> percentage ` ivs" using fin ne' by (rule Min_in)
  then have a: "\<exists>iv\<in>ivs. percentage iv = Min (percentage ` ivs)" by auto
  have "Max (percentage ` ivs) \<in> percentage ` ivs" using fin ne' by (rule Max_in)
  then have b: "\<exists>iv\<in>ivs. percentage iv = Max (percentage ` ivs)" by auto
  have c: "\<forall>iv\<in>ivs. Min (percentage ` ivs) \<le> percentage iv \<and>
                       percentage iv \<le> Max (percentage ` ivs)"
    using fin by simp
  from percentage_range_nonempty [OF assms ne] a b c
  show "percentage_range gd p = Inr (Min (percentage ` ivs), Max (percentage ` ivs)) \<and>
            (\<exists>iv\<in>ivs. percentage iv = Min (percentage ` ivs)) \<and>
            (\<exists>iv\<in>ivs. percentage iv = Max (percentage ` ivs)) \<and>
            (\<forall>iv\<in>ivs. Min (percentage ` ivs) \<le> percentage iv \<and>
                       percentage iv \<le> Max (percentage ` ivs))"
    by simp
qed

theorem percentage_range_spec_witness:
  "calc_ivs example_data
     \<lparr>snapshots = [StartSnapshot base_species 100 50 10000 True],
      appraisal = Some (Appraisal likely False False True norm_iv), nickname = None\<rparr> = Inr {} \<and>
   percentage_range example_data
     \<lparr>snapshots = [StartSnapshot base_species 100 50 10000 True],
      appraisal = Some (Appraisal likely False False True norm_iv), nickname = None\<rparr>
     = Inl ValueError_empty_sequence \<and>
   calc_ivs example_data (new base_species 100 50 10000 None False)
     = Inr {perfect_iv 76, perfect_iv 78} \<and>
   percentage_range example_data (new base_species 100 50 10000 None False) = Inr (100, 100)"
proof -
  let ?p = "\<lparr>snapshots = [StartSnapshot base_species 100 50 10000 True],
      appraisal = Some (Appraisal likely False False True norm_iv), nickname = None\<rparr>"
  have e: "calc_ivs example_data ?p = Inr {}" by (rule calc_ivs_contradicting_appraisal)
  have n: "calc_ivs example_data (new base_species 100 50 10000 None False)
     = Inr {perfect_iv 76, perfect_iv 78}" by (rule calc_ivs_start_base)
  from percentage_range_spec [OF e] percentage_range_spec [OF n] e n
  show ?thesis by (simp add: percentage_perfect)
qed


end
